theory Spec2Isabelle
  imports Complex_Main "HOL-Library.Word" "HOL-Library.AList"
begin

section \<open>The logo pipeline \<open>processLogo\<close>: data\<close>

text \<open>
  \<open>processLogo\<close> reads the decoded image through \<open>getImageData\<close>: a flat
  \<open>Uint8ClampedArray\<close> of length \<open>4 * width * height\<close>, walked in steps of four.
  A pixel is the group of four bytes at \<open>i, i+1, i+2, i+3\<close>; the list position \<open>k\<close>
  of a pixel is the source's \<open>i / 4\<close>.
\<close>

record pixel =
  chR :: "8 word"
  chG :: "8 word"
  chB :: "8 word"
  chA :: "8 word"

record image =
  imgWidth :: nat
  imgHeight :: nat
  imgData :: "pixel list"

text \<open>The source's \<open>{ r, g, b }\<close> objects (candidates, palette entries) hold JS numbers.\<close>

record rgb =
  rgbR :: int
  rgbG :: int
  rgbB :: int

text \<open>An entry of \<open>colorAccumulator\<close>: \<open>{ r, g, b, count }\<close>, running sums and a count.\<close>

record bucket =
  sumR :: int
  sumG :: int
  sumB :: int
  count :: int

text \<open>
  The bucket key is the string \<open>`${keyR},${keyG},${keyB}`\<close>; the triple of the three
  numbers stands for it (the formatting is injective).
\<close>

type_synonym bucketKey = "int \<times> int \<times> int"

section \<open>Arithmetic of the source\<close>

text \<open>
  The source computes in JS numbers (doubles). Every number that matters here is an
  integer far below \<open>2^53\<close>, or is read only through a comparison or a rounding that
  the exact value decides; the model computes with \<open>int\<close>, and with \<open>rat\<close> for the
  one product with 1.2.

  \<open>Math.pow(r - p.r, 2) + Math.pow(g - p.g, 2) + Math.pow(b - p.b, 2)\<close> is the argument
  of every \<open>Math.sqrt\<close> in the source. It is an integer of at most \<open>3 * 255^2\<close>, and the
  source only ever compares its square root with 40, with 45 or with another such
  square root. The square root of a double is correctly rounded and so monotone, 40
  and 45 are the exact roots of 1600 and 2025, and the roots of two different integers
  of this size differ by far more than a rounding error: the model compares the
  squares (lemmas \<open>dist3_less_iff\<close> and \<open>dist3_less_dist3\<close>).
\<close>

definition sqDist :: "int \<Rightarrow> int \<Rightarrow> int \<Rightarrow> int \<Rightarrow> int \<Rightarrow> int \<Rightarrow> int" where
  "sqDist r g b r' g' b' = (r - r')\<^sup>2 + (g - g')\<^sup>2 + (b - b')\<^sup>2"

text \<open>The Euclidean distance itself, for stating results in the words of the specification.\<close>

definition dist3 :: "int \<Rightarrow> int \<Rightarrow> int \<Rightarrow> int \<Rightarrow> int \<Rightarrow> int \<Rightarrow> real" where
  "dist3 r g b r' g' b' = sqrt (real_of_int (sqDist r g b r' g' b'))"

definition rgbDist :: "rgb \<Rightarrow> rgb \<Rightarrow> real" where
  "rgbDist c d = dist3 (rgbR c) (rgbG c) (rgbB c) (rgbR d) (rgbG d) (rgbB d)"

text \<open>
  \<open>Math.round(n / d)\<close> for integers \<open>n\<close> and \<open>d > 0\<close>: JavaScript rounds halves
  upwards, \<open>\<lfloor>n / d + 1/2\<rfloor>\<close> (lemma \<open>roundDiv_floor\<close>). The source rounds \<open>r / 24\<close>
  for a channel value and \<open>sum / count\<close> for a bucket; such a quotient is at most 255
  and, unless it is a half exactly, at least \<open>1 / (2 * d)\<close> away from one, which the
  rounding of the double quotient cannot bridge for any pixel count of an image.
\<close>

definition roundDiv :: "int \<Rightarrow> int \<Rightarrow> int" where
  "roundDiv n d = (2 * n + d) div (2 * d)"

text \<open>
  A store of an integer into the \<open>Uint8ClampedArray\<close> clamps it to \<open>0..255\<close>; a read
  gives the byte as a number, \<open>uint\<close>.
\<close>

definition toUint8Clamped :: "int \<Rightarrow> 8 word" where
  "toUint8Clamped v = word_of_int (max 0 (min 255 v))"

section \<open>Pass 1: background removal, bounds and colour buckets\<close>

text \<open>
  \<open>hasAlpha = (bgA === 0)\<close>; then per pixel either the colour rule
  \<open>Math.sqrt(...) < 40\<close> or the alpha rule \<open>a < 20\<close>.
\<close>

definition hasAlpha :: "pixel \<Rightarrow> bool" where
  "hasAlpha bgp = (chA bgp = 0)"

definition isBackground :: "pixel \<Rightarrow> pixel \<Rightarrow> bool" where
  "isBackground bgp p =
     (if \<not> hasAlpha bgp
      then sqDist (uint (chR p)) (uint (chG p)) (uint (chB p))
                  (uint (chR bgp)) (uint (chG bgp)) (uint (chB bgp)) < 40 * 40
      else uint (chA p) < 20)"

definition bucketSize :: int where
  "bucketSize = 24"

definition keyOf :: "pixel \<Rightarrow> bucketKey" where
  "keyOf p =
     (roundDiv (uint (chR p)) bucketSize * bucketSize,
      roundDiv (uint (chG p)) bucketSize * bucketSize,
      roundDiv (uint (chB p)) bucketSize * bucketSize)"

text \<open>
  \<open>colorAccumulator\<close> is an object with string keys that are not array indices, so
  \<open>Object.values\<close> lists it in insertion order: an association list, a new key going
  to the end and an old key updated in place.
\<close>

definition accumulate :: "pixel \<Rightarrow> (bucketKey \<times> bucket) list \<Rightarrow> (bucketKey \<times> bucket) list" where
  "accumulate p acc =
     (let key = keyOf p;
          b0 = (case map_of acc key of
                  None \<Rightarrow> \<lparr>sumR = 0, sumG = 0, sumB = 0, count = 0\<rparr>
                | Some e \<Rightarrow> e)
      in AList.update key
           \<lparr>sumR = sumR b0 + uint (chR p),
            sumG = sumG b0 + uint (chG p),
            sumB = sumB b0 + uint (chB p),
            count = count b0 + 1\<rparr> acc)"

record scan =
  scanData :: "pixel list"
  colorAccumulator :: "(bucketKey \<times> bucket) list"
  minX :: int
  minY :: int
  maxX :: int
  maxY :: int
  hasContent :: bool

text \<open>One iteration of the first loop, at pixel position \<open>k = i / 4\<close>.\<close>

definition scanPixel :: "nat \<Rightarrow> pixel \<Rightarrow> nat \<Rightarrow> scan \<Rightarrow> scan" where
  "scanPixel w bgp k st =
     (let p = scanData st ! k in
      if isBackground bgp p
      then st\<lparr>scanData := (scanData st)[k := p\<lparr>chA := 0\<rparr>]\<rparr>
      else
        (let x = int (k mod w);
             y = int (k div w)
         in st\<lparr>colorAccumulator := accumulate p (colorAccumulator st),
               minX := (if x < minX st then x else minX st),
               maxX := (if x > maxX st then x else maxX st),
               minY := (if y < minY st then y else minY st),
               maxY := (if y > maxY st then y else maxY st),
               hasContent := True\<rparr>))"

definition scanInit :: "image \<Rightarrow> scan" where
  "scanInit img =
     \<lparr>scanData = imgData img, colorAccumulator = [],
      minX = int (imgWidth img), minY = int (imgHeight img), maxX = 0, maxY = 0,
      hasContent = False\<rparr>"

text \<open>
  The whole first loop. The reference pixel \<open>data[0..3]\<close> is read once, before the
  loop; on an empty buffer the loop body never runs and the reference is never used.
\<close>

definition removeBackground :: "image \<Rightarrow> scan" where
  "removeBackground img =
     fold (scanPixel (imgWidth img) (imgData img ! 0)) [0..<length (imgData img)] (scanInit img)"

section \<open>Palette\<close>

text \<open>
  \<open>Object.values(colorAccumulator).sort((a, b) => b.count - a.count)\<close>: a stable sort,
  largest count first.
\<close>

definition sortedBuckets :: "(bucketKey \<times> bucket) list \<Rightarrow> bucket list" where
  "sortedBuckets acc = sort_key (\<lambda>e. - count e) (map snd acc)"

definition average :: "bucket \<Rightarrow> rgb" where
  "average e =
     \<lparr>rgbR = roundDiv (sumR e) (count e),
      rgbG = roundDiv (sumG e) (count e),
      rgbB = roundDiv (sumB e) (count e)\<rparr>"

definition candidates :: "(bucketKey \<times> bucket) list \<Rightarrow> rgb list" where
  "candidates acc = map average (sortedBuckets acc)"

text \<open>
  The palette holds references to the candidate objects, and \<open>palette.includes\<close>
  compares references. An object is modelled by its position in \<open>candidates\<close> paired
  with its fields: two such pairs are equal exactly when they are the same object.
\<close>

type_synonym colorRef = "nat \<times> rgb"

definition refDist :: "rgb \<Rightarrow> rgb \<Rightarrow> int" where
  "refDist c d = sqDist (rgbR c) (rgbG c) (rgbB c) (rgbR d) (rgbG d) (rgbB d)"

text \<open>The inner loop with its \<open>break\<close>: \<open>dist < 45\<close> against some palette entry.\<close>

fun isDistinct :: "rgb \<Rightarrow> colorRef list \<Rightarrow> bool" where
  "isDistinct cand [] = True"
| "isDistinct cand (p # ps) =
     (if refDist cand (snd p) < 45 * 45 then False else isDistinct cand ps)"

fun greedySelect :: "colorRef list \<Rightarrow> colorRef list \<Rightarrow> colorRef list" where
  "greedySelect [] palette = palette"
| "greedySelect (cand # cands) palette =
     (if length palette \<ge> 4 then palette
      else greedySelect cands
             (if isDistinct (snd cand) palette then palette @ [cand] else palette))"

text \<open>The \<open>while\<close> loop of the fallback, over \<open>candidates[i], candidates[i+1], ...\<close>.\<close>

fun fallbackFill :: "colorRef list \<Rightarrow> colorRef list \<Rightarrow> colorRef list" where
  "fallbackFill [] palette = palette"
| "fallbackFill (c # cs) palette =
     (if length palette < 4
      then fallbackFill cs (if c \<in> set palette then palette else palette @ [c])
      else palette)"

definition selectPalette :: "rgb list \<Rightarrow> colorRef list" where
  "selectPalette cands =
     (let refs = enumerate 0 cands;
          palette = greedySelect refs []
      in if length palette < 4 \<and> length cands > 0
         then fallbackFill refs palette
         else palette)"

definition paletteOf :: "scan \<Rightarrow> rgb list" where
  "paletteOf st = map snd (selectPalette (candidates (colorAccumulator st)))"

section \<open>Pass 2: snapping to the palette\<close>

text \<open>
  \<open>minDist\<close> starts at \<open>Infinity\<close> (\<open>None\<close>) and \<open>bestColor\<close> at \<open>palette[0]\<close>;
  \<open>dist < minDist\<close> compares two square roots of integers, that is, the integers.
\<close>

fun closest :: "int \<Rightarrow> int \<Rightarrow> int \<Rightarrow> rgb list \<Rightarrow> int option \<Rightarrow> rgb \<Rightarrow> rgb" where
  "closest r g b [] minDist bestColor = bestColor"
| "closest r g b (p # ps) minDist bestColor =
     (let dist = sqDist r g b (rgbR p) (rgbG p) (rgbB p)
      in if (case minDist of None \<Rightarrow> True | Some m \<Rightarrow> dist < m)
         then closest r g b ps (Some dist) p
         else closest r g b ps minDist bestColor)"

definition snapPixel :: "rgb list \<Rightarrow> pixel \<Rightarrow> pixel" where
  "snapPixel palette p =
     (if chA p = 0 then p
      else
        (let bestColor =
               closest (uint (chR p)) (uint (chG p)) (uint (chB p)) palette None (palette ! 0)
         in \<lparr>chR = toUint8Clamped (rgbR bestColor),
             chG = toUint8Clamped (rgbG bestColor),
             chB = toUint8Clamped (rgbB bestColor),
             chA = 255\<rparr>))"

definition quantize :: "rgb list \<Rightarrow> pixel list \<Rightarrow> pixel list" where
  "quantize palette d =
     (if length palette > 0
      then fold (\<lambda>k d'. d'[k := snapPixel palette (d' ! k)]) [0..<length d] d
      else d)"

section \<open>Crop and centre\<close>

text \<open>
  \<open>size = Math.max(contentWidth, contentHeight) * 1.2\<close> is a double that is in general
  not whole; the source rounds it nowhere. Assigning it to \<open>finalCanvas.width\<close> and
  \<open>height\<close>, attributes of type unsigned long, keeps its integer part (the conversion
  truncates; dimensions are far below \<open>2^32\<close>). For the canvas side the model takes the
  integer part of the exact product with \<open>6/5\<close>, which is that of the double product:
  the double 1.2 is a little less than \<open>6/5\<close>, by less than \<open>2^-54\<close> of it, so the
  double product is the whole number \<open>6 * m / 5\<close> itself when 5 divides the maximum
  \<open>m\<close>, and otherwise has the integer part of the exact product, whose fraction is at
  least \<open>1/5\<close> (lemma \<open>canvasDimension_sizeDouble\<close>, for images of up to \<open>2^32\<close> a side).
\<close>

definition contentWidth :: "scan \<Rightarrow> int" where
  "contentWidth st = maxX st - minX st + 1"

definition contentHeight :: "scan \<Rightarrow> int" where
  "contentHeight st = maxY st - minY st + 1"

definition cropSize :: "scan \<Rightarrow> rat" where
  "cropSize st = of_int (max (contentWidth st) (contentHeight st)) * (6 / 5)"

text \<open>The integer part; \<open>size\<close> is positive wherever the source assigns it.\<close>

definition canvasDimension :: "rat \<Rightarrow> int" where
  "canvasDimension x = \<lfloor>x\<rfloor>"

text \<open>
  The destination offsets \<open>(size - contentWidth) / 2\<close> and \<open>(size - contentHeight) / 2\<close>
  are passed to \<open>drawImage\<close> as the doubles they are, so here the model computes in
  doubles: a double is the rational it denotes, and every operation rounds its exact
  result to the nearest double, ties to even (53 significant bits; no overflow or
  subnormal occurs at these magnitudes). \<open>bitLength\<close> is the number of binary digits
  of a positive integer, \<open>binaryExponent x\<close> the \<open>e\<close> with \<open>2^e \<le> x < 2^(e+1)\<close>.
\<close>

function bitLength :: "int \<Rightarrow> int" where
  "bitLength n = (if n \<le> 0 then 0 else 1 + bitLength (n div 2))"
  by pat_completeness auto
termination
  by (relation "measure nat") auto

declare bitLength.simps [simp del]

definition roundEven :: "rat \<Rightarrow> int" where
  "roundEven y =
     (let f = \<lfloor>y\<rfloor>; r = y - of_int f
      in if r < 1 / 2 then f else if 1 / 2 < r then f + 1 else if even f then f else f + 1)"

definition binaryExponent :: "rat \<Rightarrow> int" where
  "binaryExponent x =
     (let d = bitLength (fst (quotient_of x)) - bitLength (snd (quotient_of x))
      in if 2 powi d \<le> x then d else d - 1)"

definition toDouble :: "rat \<Rightarrow> rat" where
  "toDouble x =
     (if x = 0 then 0
      else
        (let u = 2 powi (binaryExponent \<bar>x\<bar> - 52)
         in sgn x * (of_int (roundEven (\<bar>x\<bar> / u)) * u)))"

text \<open>The source's \<open>size\<close>: the double product with the double \<open>1.2\<close>.\<close>

definition sizeDouble :: "scan \<Rightarrow> rat" where
  "sizeDouble st =
     toDouble (of_int (max (contentWidth st) (contentHeight st)) * toDouble (6 / 5))"

definition destX :: "scan \<Rightarrow> rat" where
  "destX st = toDouble (toDouble (sizeDouble st - of_int (contentWidth st)) / 2)"

definition destY :: "scan \<Rightarrow> rat" where
  "destY st = toDouble (toDouble (sizeDouble st - of_int (contentHeight st)) / 2)"

text \<open>
  The final canvas as the source sets it up: its two dimensions, the processed buffer
  put back on the first canvas, and the nine arguments of the one \<open>drawImage\<close> call.
\<close>

record finalCanvas =
  finalWidth :: int
  finalHeight :: int
  sourceWidth :: nat
  sourceData :: "pixel list"
  srcX :: int
  srcY :: int
  srcW :: int
  srcH :: int
  dstX :: rat
  dstY :: rat
  dstW :: int
  dstH :: int

definition cropAndCenter :: "nat \<Rightarrow> pixel list \<Rightarrow> scan \<Rightarrow> finalCanvas" where
  "cropAndCenter w d st =
     \<lparr>finalWidth = canvasDimension (cropSize st),
      finalHeight = canvasDimension (cropSize st),
      sourceWidth = w,
      sourceData = d,
      srcX = minX st, srcY = minY st, srcW = contentWidth st, srcH = contentHeight st,
      dstX = destX st, dstY = destY st, dstW = contentWidth st, dstH = contentHeight st\<rparr>"

section \<open>What the final canvas holds\<close>

text \<open>
  The pixels of the final canvas after the \<open>drawImage\<close> call, so the image that
  \<open>toDataURL\<close> encodes and a later call decodes, in the one case where painting is
  copying: both destination offsets are whole numbers (source and destination
  rectangle have the same size) and every pixel of the source canvas is fully
  transparent or fully opaque. A canvas keeps colours premultiplied by alpha, so an
  opaque pixel is kept as it is and a fully transparent one as transparent black; the
  final canvas is created transparent black and is painted only inside the destination
  rectangle, clipped to the canvas. At a fractional offset the rasteriser resamples
  the content; that is outside the model (\<open>None\<close>).
\<close>

definition wholeNumber :: "rat \<Rightarrow> bool" where
  "wholeNumber x = (of_int \<lfloor>x\<rfloor> = x)"

definition transparentBlack :: pixel where
  "transparentBlack = \<lparr>chR = 0, chG = 0, chB = 0, chA = 0\<rparr>"

definition canvasPixel :: "pixel \<Rightarrow> pixel" where
  "canvasPixel p = (if chA p = 0 then transparentBlack else p)"

definition paintedPixel :: "finalCanvas \<Rightarrow> nat \<Rightarrow> pixel" where
  "paintedPixel fc k =
     (let x = int (k mod nat (finalWidth fc));
          y = int (k div nat (finalWidth fc));
          i = x - \<lfloor>dstX fc\<rfloor>;
          j = y - \<lfloor>dstY fc\<rfloor>
      in if 0 \<le> i \<and> i < dstW fc \<and> 0 \<le> j \<and> j < dstH fc
         then canvasPixel
                (sourceData fc ! nat ((srcY fc + j) * int (sourceWidth fc) + (srcX fc + i)))
         else transparentBlack)"

definition drawnImage :: "finalCanvas \<Rightarrow> image option" where
  "drawnImage fc =
     (if wholeNumber (dstX fc) \<and> wholeNumber (dstY fc) \<and>
         list_all (\<lambda>p. chA p = 0 \<or> chA p = 255) (sourceData fc)
      then Some \<lparr>imgWidth = nat (finalWidth fc), imgHeight = nat (finalHeight fc),
                  imgData = map (paintedPixel fc)
                              [0..<nat (finalWidth fc) * nat (finalHeight fc)]\<rparr>
      else None)"

section \<open>The promise\<close>

text \<open>
  The promise is settled only through \<open>resolve\<close>: with the string \<open>imageUrl\<close> itself or
  with \<open>finalCanvas.toDataURL('image/png')\<close>, the encoding of the final canvas.
\<close>

datatype resolution = Original string | PngDataUrl finalCanvas

text \<open>
  The environment of one call: what decoding \<open>imageUrl\<close> gives (\<open>None\<close> fires
  \<open>onerror\<close>), and whether each of the two \<open>getContext('2d')\<close> calls returns a context.
\<close>

record environment =
  decoded :: "image option"
  ctxAvailable :: bool
  finalCtxAvailable :: bool

text \<open>The buffer after both loops, which \<open>putImageData\<close> puts back on the first canvas.\<close>

definition processedData :: "image \<Rightarrow> pixel list" where
  "processedData img =
     (let st = removeBackground img in quantize (paletteOf st) (scanData st))"

definition processLogo :: "environment \<Rightarrow> string \<Rightarrow> resolution" where
  "processLogo env imageUrl =
     (case decoded env of
        None \<Rightarrow> Original imageUrl
      | Some img \<Rightarrow>
          if \<not> ctxAvailable env then Original imageUrl
          else
            (let st = removeBackground img in
             if \<not> hasContent st then Original imageUrl
             else
               (let d = quantize (paletteOf st) (scanData st) in
                if \<not> finalCtxAvailable env then Original imageUrl
                else PngDataUrl (cropAndCenter (imgWidth img) d st))))"

section \<open>Notions used in the statements\<close>

subsection \<open>The first loop\<close>

text \<open>
  What \<open>getImageData\<close> returns for a decoded image: positive dimensions and one pixel
  for each position.
\<close>

definition wellFormed :: "image \<Rightarrow> bool" where
  "wellFormed img =
     (0 < imgWidth img \<and> 0 < imgHeight img \<and>
      length (imgData img) = imgWidth img * imgHeight img)"

text \<open>The first loop after its first \<open>n\<close> iterations.\<close>

definition scanPrefix :: "image \<Rightarrow> nat \<Rightarrow> scan" where
  "scanPrefix img n =
     fold (scanPixel (imgWidth img) (imgData img ! 0)) [0..<n] (scanInit img)"

text \<open>What the first loop does to the buffer entry of one pixel.\<close>

definition clearBackground :: "pixel \<Rightarrow> pixel \<Rightarrow> pixel" where
  "clearBackground bgp p = (if isBackground bgp p then p\<lparr>chA := 0\<rparr> else p)"

text \<open>The foreground of an image: position \<open>k\<close> is not classified as background.\<close>

definition foreground :: "image \<Rightarrow> nat \<Rightarrow> bool" where
  "foreground img k = (k < length (imgData img) \<and> \<not> isBackground (imgData img ! 0) (imgData img ! k))"

text \<open>The coordinates the first loop derives from a position.\<close>

definition xOf :: "image \<Rightarrow> nat \<Rightarrow> int" where
  "xOf img k = int (k mod imgWidth img)"

definition yOf :: "image \<Rightarrow> nat \<Rightarrow> int" where
  "yOf img k = int (k div imgWidth img)"


subsection \<open>Buckets\<close>

text \<open>The key of a colour: each channel rounded to the nearest multiple of 24.\<close>

definition quantizeChannel :: "int \<Rightarrow> int" where
  "quantizeChannel v = roundDiv v bucketSize * bucketSize"

definition keyOfRgb :: "rgb \<Rightarrow> bucketKey" where
  "keyOfRgb c = (quantizeChannel (rgbR c), quantizeChannel (rgbG c), quantizeChannel (rgbB c))"

text \<open>
  The invariant of the accumulator. A channel sum \<open>s\<close> of \<open>n\<close> pixels under the key
  \<open>kq\<close> lies between \<open>n\<close> times the least and \<open>n\<close> times the greatest value that is
  rounded to \<open>kq\<close>, and between 0 and \<open>255 * n\<close>; counts are positive; no key occurs
  twice.
\<close>

definition channelOk :: "int \<Rightarrow> int \<Rightarrow> int \<Rightarrow> bool" where
  "channelOk kq s n =
     (kq mod 24 = 0 \<and> (kq - 12) * n \<le> s \<and> s \<le> (kq + 11) * n \<and> 0 \<le> s \<and> s \<le> 255 * n)"

definition entryOk :: "bucketKey \<times> bucket \<Rightarrow> bool" where
  "entryOk ke =
     (case ke of ((kr, kg, kb), e) \<Rightarrow>
        0 < count e \<and> channelOk kr (sumR e) (count e) \<and>
        channelOk kg (sumG e) (count e) \<and> channelOk kb (sumB e) (count e))"

definition accOk :: "(bucketKey \<times> bucket) list \<Rightarrow> bool" where
  "accOk acc = (distinct (map fst acc) \<and> list_all entryOk acc)"

text \<open>One step of a bucket, and the bucket of a list of pixels.\<close>

definition addPixel :: "pixel \<Rightarrow> bucket \<Rightarrow> bucket" where
  "addPixel p e =
     \<lparr>sumR = sumR e + uint (chR p), sumG = sumG e + uint (chG p),
      sumB = sumB e + uint (chB p), count = count e + 1\<rparr>"

definition bucketOf :: "pixel list \<Rightarrow> bucket" where
  "bucketOf ps =
     \<lparr>sumR = sum_list (map (\<lambda>p. uint (chR p)) ps), sumG = sum_list (map (\<lambda>p. uint (chG p)) ps),
      sumB = sum_list (map (\<lambda>p. uint (chB p)) ps), count = int (length ps)\<rparr>"

subsection \<open>The palette\<close>

text \<open>Pairwise separation by the threshold of the greedy pass, \<open>dist < 45\<close> never holding.\<close>

fun separated :: "rgb list \<Rightarrow> bool" where
  "separated [] = True"
| "separated (c # cs) = ((\<forall>d \<in> set cs. 45 * 45 \<le> refDist c d) \<and> separated cs)"

text \<open>Every two entries of a list of colours are at Euclidean RGB distance 45 or more.\<close>

definition farApart :: "rgb list \<Rightarrow> bool" where
  "farApart cs = (\<forall>i < length cs. \<forall>j < length cs. i \<noteq> j \<longrightarrow> 45 \<le> rgbDist (cs ! i) (cs ! j))"

text \<open>The colours admitted by the greedy pass alone.\<close>

definition greedyColors :: "rgb list \<Rightarrow> rgb list" where
  "greedyColors cands = map snd (greedySelect (enumerate 0 cands) [])"

text \<open>
  The fallback in the words of the specification, on colours: walk the candidate
  ranking from its start, skip a colour that is already in the palette, append any
  other, and stop when the palette has 4 entries or the ranking is used up.
\<close>

fun specFill :: "rgb list \<Rightarrow> rgb list \<Rightarrow> rgb list" where
  "specFill [] palette = palette"
| "specFill (c # ranking) palette =
     (if 4 \<le> length palette then palette
      else specFill ranking (if c \<in> set palette then palette else palette @ [c]))"

text \<open>
  The palette in the words of the specification: the greedy pass, then the fallback if
  fewer than 4 colours were admitted and some candidate is still unused.
\<close>

definition specPalette :: "rgb list \<Rightarrow> rgb list" where
  "specPalette ranking =
     (let admitted = greedyColors ranking
      in if length admitted < 4 \<and> (\<exists>c \<in> set ranking. c \<notin> set admitted)
         then specFill ranking admitted
         else admitted)"

text \<open>
  The Euclidean distance of a buffer pixel's colour to a palette colour, the \<open>dist\<close> of
  the second loop.
\<close>

definition pixelDist :: "pixel \<Rightarrow> rgb \<Rightarrow> real" where
  "pixelDist p c = dist3 (uint (chR p)) (uint (chG p)) (uint (chB p)) (rgbR c) (rgbG c) (rgbB c)"

subsection \<open>The call\<close>

text \<open>
  The inputs on which \<open>processLogo\<close> falls back to its argument: \<open>onerror\<close>, no
  first context, no foreground pixel, or no context for the final canvas.
\<close>

definition passThrough :: "environment \<Rightarrow> bool" where
  "passThrough env =
     (case decoded env of
        None \<Rightarrow> True
      | Some img \<Rightarrow>
          \<not> ctxAvailable env \<or> \<not> hasContent (removeBackground img) \<or> \<not> finalCtxAvailable env)"

text \<open>The environment in which the image decodes and both contexts are there.\<close>

definition allOk :: "image \<Rightarrow> environment" where
  "allOk img = \<lparr>decoded = Some img, ctxAvailable = True, finalCtxAvailable = True\<rparr>"


subsection \<open>Example images\<close>

text \<open>A pixel from its four channel values.\<close>

definition rgba :: "int \<Rightarrow> int \<Rightarrow> int \<Rightarrow> int \<Rightarrow> pixel" where
  "rgba r g b a = \<lparr>chR = word_of_int r, chG = word_of_int g, chB = word_of_int b, chA = word_of_int a\<rparr>"

text \<open>A white pixel followed by a red one, both opaque, in one row.\<close>

definition whiteRed :: image where
  "whiteRed = \<lparr>imgWidth = 2, imgHeight = 1, imgData = [rgba 255 255 255 255, rgba 255 0 0 255]\<rparr>"

text \<open>An image all of one opaque colour: two white pixels.\<close>

definition whiteWhite :: image where
  "whiteWhite = \<lparr>imgWidth = 2, imgHeight = 1, imgData = [rgba 255 255 255 255, rgba 255 255 255 255]\<rparr>"

text \<open>An opaque white reference pixel followed by a fully transparent black one.\<close>

definition whiteClear :: image where
  "whiteClear = \<lparr>imgWidth = 2, imgHeight = 1, imgData = [rgba 255 255 255 255, rgba 0 0 0 0]\<rparr>"

text \<open>One row: a white reference pixel, then red, green, blue and black.\<close>

definition fourColours :: image where
  "fourColours =
     \<lparr>imgWidth = 5, imgHeight = 1,
      imgData = [rgba 255 255 255 255, rgba 255 0 0 255, rgba 0 255 0 255,
                 rgba 0 0 255 255, rgba 0 0 0 255]\<rparr>"

text \<open>
  One row: a white reference pixel, then a grey \<open>(100,100,100)\<close>, three colours at
  distance 40 from the grey and more than 45 from each other, and a blue far from all.
\<close>

definition fiveColours :: image where
  "fiveColours =
     \<lparr>imgWidth = 6, imgHeight = 1,
      imgData = [rgba 255 255 255 255, rgba 100 100 100 255, rgba 140 100 100 255,
                 rgba 60 100 100 255, rgba 100 140 100 255, rgba 100 100 200 255]\<rparr>"

text \<open>
  Scenario A of the specification: 10 by 10 opaque white pixels with an opaque red
  block of 4 by 4 at rows and columns 3 to 6.
\<close>

definition scenarioA :: image where
  "scenarioA =
     \<lparr>imgWidth = 10, imgHeight = 10,
      imgData = map (\<lambda>k. if 3 \<le> k mod 10 \<and> k mod 10 \<le> 6 \<and> 3 \<le> k div 10 \<and> k div 10 \<le> 6
                          then rgba 255 0 0 255 else rgba 255 255 255 255) [0..<100]\<rparr>"

text \<open>
  Three rows of ten: a row of opaque white; then a content of 10 by 2 whose first
  column is fully transparent (transparent black, as a canvas returns it), with one
  opaque white pixel next to it in the lower row and opaque red elsewhere.
\<close>

definition edgeAndHole :: image where
  "edgeAndHole =
     \<lparr>imgWidth = 10, imgHeight = 3,
      imgData = replicate 10 (rgba 255 255 255 255)
                @ [rgba 0 0 0 0] @ replicate 9 (rgba 255 0 0 255)
                @ [rgba 0 0 0 0, rgba 255 255 255 255] @ replicate 8 (rgba 255 0 0 255)\<rparr>"


text \<open>
  A canvas of 12 by 12, transparent black but for opaque red at columns 2 to 10 of
  row 5 and columns 3 to 10 of row 6.
\<close>

definition edgeAndHoleOutput :: image where
  "edgeAndHoleOutput =
     \<lparr>imgWidth = 12, imgHeight = 12,
      imgData = map (\<lambda>k. if k div 12 = 5 \<and> 2 \<le> k mod 12 \<and> k mod 12 \<le> 10 \<or>
                             k div 12 = 6 \<and> 3 \<le> k mod 12 \<and> k mod 12 \<le> 10
                          then rgba 255 0 0 255 else rgba 0 0 0 0) [0..<144]\<rparr>"

section \<open>The arithmetic of the model and the arithmetic of the source\<close>


lemma sqrt_less_const:
  assumes "0 \<le> t"
  shows "(sqrt (real_of_int s) < real_of_int t) = (s < t * t)"
proof -
  have "real_of_int t = sqrt (real_of_int (t * t))"
    using assms by simp
  then have "(sqrt (real_of_int s) < real_of_int t) = (real_of_int s < real_of_int (t * t))"
    by (metis real_sqrt_less_iff)
  then show ?thesis
    by (simp only: of_int_less_iff)
qed

lemma dist3_less_iff:
  "0 \<le> t \<Longrightarrow> (dist3 r g b r' g' b' < real_of_int t) = (sqDist r g b r' g' b' < t * t)"
  by (simp only: dist3_def sqrt_less_const)

lemma dist3_less_dist3:
  "(dist3 r g b r' g' b' < dist3 u v w u' v' w') = (sqDist r g b r' g' b' < sqDist u v w u' v' w')"
  by (simp add: dist3_def)

lemma dist3_le_dist3:
  "(dist3 r g b r' g' b' \<le> dist3 u v w u' v' w') = (sqDist r g b r' g' b' \<le> sqDist u v w u' v' w')"
  by (simp add: dist3_def)

lemma roundDiv_floor:
  assumes "0 < d"
  shows "roundDiv n d = \<lfloor>real_of_int n / real_of_int d + 1 / 2\<rfloor>"
proof -
  have "real_of_int n / real_of_int d + 1 / 2 = real_of_int (2 * n + d) / real_of_int (2 * d)"
    using assms by (simp add: field_simps)
  then show ?thesis
    by (simp only: roundDiv_def floor_divide_of_int_eq)
qed

section \<open>The first loop\<close>

lemma scanPrefix_0: "scanPrefix img 0 = scanInit img"
  by (simp add: scanPrefix_def)

lemma scanPrefix_Suc:
  "scanPrefix img (Suc n) = scanPixel (imgWidth img) (imgData img ! 0) n (scanPrefix img n)"
  by (simp add: scanPrefix_def)

lemma removeBackground_prefix: "removeBackground img = scanPrefix img (length (imgData img))"
  by (simp add: removeBackground_def scanPrefix_def)

lemma scanData_prefix:
  "length (scanData (scanPrefix img n)) = length (imgData img) \<and>
   (\<forall>k < length (imgData img).
      scanData (scanPrefix img n) ! k =
        (if k < n then clearBackground (imgData img ! 0) (imgData img ! k) else imgData img ! k))"
proof (induction n)
  case 0
  show ?case by (simp add: scanPrefix_0 scanInit_def)
next
  case (Suc n)
  then show ?case
    by (auto simp: scanPrefix_Suc scanPixel_def Let_def clearBackground_def nth_list_update less_Suc_eq)
qed

lemma scanData_read:
  "n < length (imgData img) \<Longrightarrow> scanData (scanPrefix img n) ! n = imgData img ! n"
  using scanData_prefix [of img n] by simp

lemma scanData_removeBackground:
  "scanData (removeBackground img) = map (clearBackground (imgData img ! 0)) (imgData img)"
  using scanData_prefix [of img "length (imgData img)"]
  by (simp add: removeBackground_prefix list_eq_iff_nth_eq)

lemma hasContent_prefix:
  "n \<le> length (imgData img) \<Longrightarrow>
   hasContent (scanPrefix img n) = (\<exists>k < n. \<not> isBackground (imgData img ! 0) (imgData img ! k))"
proof (induction n)
  case 0
  show ?case by (simp add: scanPrefix_0 scanInit_def)
next
  case (Suc n)
  then show ?case
    by (auto simp: scanPrefix_Suc scanPixel_def Let_def scanData_read less_Suc_eq)
qed

lemma hasContent_removeBackground:
  "hasContent (removeBackground img) =
     (\<exists>p \<in> set (imgData img). \<not> isBackground (imgData img ! 0) p)"
  by (simp add: removeBackground_prefix hasContent_prefix Bex_def in_set_conv_nth) blast

lemma colorAccumulator_prefix:
  "n \<le> length (imgData img) \<Longrightarrow>
   colorAccumulator (scanPrefix img n) =
     fold accumulate (filter (\<lambda>p. \<not> isBackground (imgData img ! 0) p) (take n (imgData img))) []"
proof (induction n)
  case 0
  show ?case by (simp add: scanPrefix_0 scanInit_def)
next
  case (Suc n)
  then show ?case
    by (simp add: scanPrefix_Suc scanPixel_def Let_def scanData_read take_Suc_conv_app_nth)
qed

lemma colorAccumulator_removeBackground:
  "colorAccumulator (removeBackground img) =
     fold accumulate (filter (\<lambda>p. \<not> isBackground (imgData img ! 0) p) (imgData img)) []"
  by (simp add: removeBackground_prefix colorAccumulator_prefix)

section \<open>The invariant of the accumulator\<close>

lemma quantizeChannel_range:
  "quantizeChannel v mod 24 = 0 \<and> quantizeChannel v - 12 \<le> v \<and> v \<le> quantizeChannel v + 11"
proof -
  define q where "q = (2 * v + 24) div 48"
  define m where "m = (2 * v + 24) mod 48"
  have "2 * v + 24 = 48 * q + m"
    by (simp add: q_def m_def)
  moreover have "0 \<le> m" and "m < 48"
    by (simp_all add: m_def)
  moreover have "quantizeChannel v = q * 24"
    by (simp add: quantizeChannel_def roundDiv_def bucketSize_def q_def)
  ultimately show ?thesis
    by simp
qed

lemma quantizeChannel_unique:
  assumes "kq mod 24 = 0" "kq - 12 \<le> v" "v \<le> kq + 11"
  shows "quantizeChannel v = kq"
proof -
  from assms(1) obtain j where j: "kq = 24 * j"
    by (metis mod_eq_0_iff_dvd dvd_def)
  have "2 * v + 24 = 48 * j + (2 * v + 24 - 48 * j)"
    by simp
  moreover have "0 \<le> 2 * v + 24 - 48 * j" and "2 * v + 24 - 48 * j < 48"
    using assms(2,3) j by simp_all
  ultimately have "(2 * v + 24) div 48 = j"
    by (rule int_div_pos_eq)
  then show ?thesis
    by (simp add: quantizeChannel_def roundDiv_def bucketSize_def j)
qed

lemma uint8_range: "0 \<le> uint (v :: 8 word) \<and> uint v \<le> 255"
  using uint_lt2p [of v] by simp

lemma channelOk_first: "channelOk (quantizeChannel (uint (v :: 8 word))) (uint v) 1"
  using quantizeChannel_range [of "uint v"] uint8_range [of v]
  by (simp add: channelOk_def)

lemma channelOk_add:
  assumes "channelOk (quantizeChannel (uint (v :: 8 word))) s n"
  shows "channelOk (quantizeChannel (uint v)) (s + uint v) (n + 1)"
  using assms quantizeChannel_range [of "uint v"] uint8_range [of v]
  by (simp add: channelOk_def algebra_simps)

lemma roundDiv_bounds:
  assumes "0 < n" "lo * n \<le> s" "s \<le> hi * n"
  shows "lo \<le> roundDiv s n \<and> roundDiv s n \<le> hi"
proof -
  have n: "0 < real_of_int n" using assms(1) by simp
  have "real_of_int lo * real_of_int n \<le> real_of_int s"
    using assms(2) by (metis of_int_le_iff of_int_mult)
  then have lo: "real_of_int lo \<le> real_of_int s / real_of_int n"
    using n by (simp add: pos_le_divide_eq)
  have "real_of_int s \<le> real_of_int hi * real_of_int n"
    using assms(3) by (metis of_int_le_iff of_int_mult)
  then have hi: "real_of_int s / real_of_int n \<le> real_of_int hi"
    using n by (simp add: pos_divide_le_eq)
  show ?thesis
    unfolding roundDiv_floor [OF assms(1)] using lo hi by (simp add: le_floor_iff floor_le_iff)
qed

lemma channelOk_average:
  assumes "0 < n" "channelOk kq s n"
  shows "quantizeChannel (roundDiv s n) = kq \<and> 0 \<le> roundDiv s n \<and> roundDiv s n \<le> 255"
proof -
  have a: "kq - 12 \<le> roundDiv s n \<and> roundDiv s n \<le> kq + 11"
    using assms roundDiv_bounds [of n "kq - 12" s "kq + 11"] by (simp add: channelOk_def)
  have b: "0 \<le> roundDiv s n \<and> roundDiv s n \<le> 255"
    using assms roundDiv_bounds [of n 0 s 255] by (simp add: channelOk_def)
  from a assms(2) have "quantizeChannel (roundDiv s n) = kq"
    by (intro quantizeChannel_unique) (simp_all add: channelOk_def)
  with b show ?thesis by simp
qed

lemma keyOf_quantize:
  "keyOf p = (quantizeChannel (uint (chR p)), quantizeChannel (uint (chG p)), quantizeChannel (uint (chB p)))"
  by (simp add: keyOf_def quantizeChannel_def)

lemma entryOk_average:
  assumes "entryOk (key, e)"
  shows "keyOfRgb (average e) = key"
    and "0 \<le> rgbR (average e) \<and> rgbR (average e) \<le> 255"
    and "0 \<le> rgbG (average e) \<and> rgbG (average e) \<le> 255"
    and "0 \<le> rgbB (average e) \<and> rgbB (average e) \<le> 255"
  using assms channelOk_average [of "count e" _ "sumR e"]
    channelOk_average [of "count e" _ "sumG e"] channelOk_average [of "count e" _ "sumB e"]
  by (auto simp: entryOk_def keyOfRgb_def average_def split: prod.splits)

lemma accumulate_entry:
  assumes "accOk acc"
  shows "entryOk (keyOf p,
           \<lparr>sumR = sumR (case map_of acc (keyOf p) of None \<Rightarrow> \<lparr>sumR = 0, sumG = 0, sumB = 0, count = 0\<rparr> | Some e \<Rightarrow> e) + uint (chR p),
            sumG = sumG (case map_of acc (keyOf p) of None \<Rightarrow> \<lparr>sumR = 0, sumG = 0, sumB = 0, count = 0\<rparr> | Some e \<Rightarrow> e) + uint (chG p),
            sumB = sumB (case map_of acc (keyOf p) of None \<Rightarrow> \<lparr>sumR = 0, sumG = 0, sumB = 0, count = 0\<rparr> | Some e \<Rightarrow> e) + uint (chB p),
            count = count (case map_of acc (keyOf p) of None \<Rightarrow> \<lparr>sumR = 0, sumG = 0, sumB = 0, count = 0\<rparr> | Some e \<Rightarrow> e) + 1\<rparr>)"
proof (cases "map_of acc (keyOf p)")
  case None
  then show ?thesis
    using channelOk_first [of "chR p"] channelOk_first [of "chG p"] channelOk_first [of "chB p"]
    by (simp add: entryOk_def keyOf_quantize)
next
  case (Some e)
  then have "(keyOf p, e) \<in> set acc" by (rule map_of_SomeD)
  with assms have "entryOk (keyOf p, e)" by (auto simp: accOk_def list_all_iff)
  then show ?thesis
    using Some channelOk_add [of "chR p" "sumR e" "count e"]
      channelOk_add [of "chG p" "sumG e" "count e"] channelOk_add [of "chB p" "sumB e" "count e"]
    by (simp add: entryOk_def keyOf_quantize)
qed

lemma set_update_subset: "set (AList.update k v al) \<subseteq> insert (k, v) (set al)"
  by (induction al) auto

lemma accOk_accumulate:
  assumes "accOk acc"
  shows "accOk (accumulate p acc)"
proof -
  let ?v = "\<lparr>sumR = sumR (case map_of acc (keyOf p) of None \<Rightarrow> \<lparr>sumR = 0, sumG = 0, sumB = 0, count = 0\<rparr> | Some e \<Rightarrow> e) + uint (chR p),
            sumG = sumG (case map_of acc (keyOf p) of None \<Rightarrow> \<lparr>sumR = 0, sumG = 0, sumB = 0, count = 0\<rparr> | Some e \<Rightarrow> e) + uint (chG p),
            sumB = sumB (case map_of acc (keyOf p) of None \<Rightarrow> \<lparr>sumR = 0, sumG = 0, sumB = 0, count = 0\<rparr> | Some e \<Rightarrow> e) + uint (chB p),
            count = count (case map_of acc (keyOf p) of None \<Rightarrow> \<lparr>sumR = 0, sumG = 0, sumB = 0, count = 0\<rparr> | Some e \<Rightarrow> e) + 1\<rparr>"
  have eq: "accumulate p acc = AList.update (keyOf p) ?v acc"
    by (simp add: accumulate_def Let_def)
  have "distinct (map fst (accumulate p acc))"
    using assms by (simp add: eq accOk_def distinct_update)
  moreover have "\<forall>ke \<in> set (accumulate p acc). entryOk ke"
    using assms accumulate_entry [OF assms, of p] set_update_subset [of "keyOf p" ?v acc]
    unfolding eq accOk_def list_all_iff by blast
  ultimately show ?thesis by (simp add: accOk_def list_all_iff)
qed

lemma accOk_fold: "accOk acc \<Longrightarrow> accOk (fold accumulate ps acc)"
  by (induction ps arbitrary: acc) (simp_all add: accOk_accumulate)

lemma accOk_removeBackground: "accOk (colorAccumulator (removeBackground img))"
  by (simp only: colorAccumulator_removeBackground) (rule accOk_fold, simp add: accOk_def)

section \<open>The palette\<close>

lemma fold_accumulate_nonempty: "ps \<noteq> [] \<or> acc \<noteq> [] \<Longrightarrow> fold accumulate ps acc \<noteq> []"
  by (induction ps arbitrary: acc) (simp_all add: accumulate_def Let_def)

lemma set_sortedBuckets: "set (sortedBuckets acc) = snd ` set acc"
  by (simp add: sortedBuckets_def)

lemma length_candidates: "length (candidates acc) = length acc"
  by (simp add: candidates_def sortedBuckets_def)

lemma candidates_range:
  assumes "accOk acc" "c \<in> set (candidates acc)"
  shows "0 \<le> rgbR c \<and> rgbR c \<le> 255 \<and> 0 \<le> rgbG c \<and> rgbG c \<le> 255 \<and> 0 \<le> rgbB c \<and> rgbB c \<le> 255"
proof -
  from assms(2) obtain key e where ke: "(key, e) \<in> set acc" and c: "c = average e"
    by (auto simp: candidates_def set_sortedBuckets)
  from assms(1) ke have "entryOk (key, e)"
    by (auto simp: accOk_def list_all_iff)
  from entryOk_average(2-4) [OF this] show ?thesis
    by (simp add: c)
qed

lemma average_inj:
  assumes "accOk acc"
  shows "inj_on (\<lambda>ke. average (snd ke)) (set acc)"
proof (rule inj_onI)
  fix x y
  assume x: "x \<in> set acc" and y: "y \<in> set acc" and eq: "average (snd x) = average (snd y)"
  from assms x have "entryOk (fst x, snd x)" by (auto simp: accOk_def list_all_iff)
  then have kx: "keyOfRgb (average (snd x)) = fst x" by (rule entryOk_average(1))
  from assms y have "entryOk (fst y, snd y)" by (auto simp: accOk_def list_all_iff)
  then have ky: "keyOfRgb (average (snd y)) = fst y" by (rule entryOk_average(1))
  from kx ky eq have "fst x = fst y" by simp
  with assms x y show "x = y"
    by (metis accOk_def eq_key_imp_eq_value prod.collapse)
qed

lemma distinct_candidates:
  assumes "accOk acc"
  shows "distinct (candidates acc)"
proof -
  have d: "distinct acc"
    using assms by (simp add: accOk_def distinct_map)
  have i: "inj_on (average \<circ> snd) (set acc)"
    using average_inj [OF assms] by (simp add: comp_def)
  have i1: "inj_on snd (set acc)"
    by (rule inj_on_imageI2 [OF i])
  have i2: "inj_on average (snd ` set acc)"
    using comp_inj_on_iff [OF i1] i by blast
  show ?thesis
    by (simp add: candidates_def sortedBuckets_def distinct_map d i1 i2)
qed

lemma refDist_sym: "refDist c d = refDist d c"
  by (simp add: refDist_def sqDist_def power2_commute)

lemma isDistinct_iff: "isDistinct cand pal = (\<forall>p \<in> set pal. 45 * 45 \<le> refDist cand (snd p))"
  by (induction pal) auto

lemma separated_snoc:
  "separated (cs @ [c]) = (separated cs \<and> (\<forall>d \<in> set cs. 45 * 45 \<le> refDist c d))"
  by (induction cs) (auto simp: refDist_sym)

lemma greedySelect_extends: "\<exists>ext. greedySelect cs pal = pal @ ext"
  by (induction cs pal rule: greedySelect.induct) auto

lemma greedySelect_subset: "set (greedySelect cs pal) \<subseteq> set cs \<union> set pal"
  by (induction cs pal rule: greedySelect.induct) auto

lemma greedySelect_length: "length pal \<le> 4 \<Longrightarrow> length (greedySelect cs pal) \<le> 4"
  by (induction cs pal rule: greedySelect.induct) auto

lemma greedySelect_separated:
  "separated (map snd pal) \<Longrightarrow> separated (map snd (greedySelect cs pal))"
  by (induction cs pal rule: greedySelect.induct) (auto simp: separated_snoc isDistinct_iff)

lemma greedySelect_nonempty: "cs \<noteq> [] \<Longrightarrow> greedySelect cs [] \<noteq> []"
proof (cases cs)
  case Nil
  then show "cs \<noteq> [] \<Longrightarrow> ?thesis" by simp
next
  case (Cons c cs')
  obtain ext where "greedySelect cs' [c] = [c] @ ext"
    using greedySelect_extends by blast
  with Cons show ?thesis by simp
qed

lemma fallbackFill_extends: "\<exists>ext. fallbackFill cs pal = pal @ ext"
  by (induction cs pal rule: fallbackFill.induct) auto

lemma fallbackFill_subset: "set (fallbackFill cs pal) \<subseteq> set cs \<union> set pal"
  by (induction cs pal rule: fallbackFill.induct) auto

lemma fallbackFill_length: "length pal \<le> 4 \<Longrightarrow> length (fallbackFill cs pal) \<le> 4"
  by (induction cs pal rule: fallbackFill.induct) auto

lemma selectPalette_length: "length (selectPalette cands) \<le> 4"
  by (simp add: selectPalette_def Let_def greedySelect_length fallbackFill_length)

lemma selectPalette_nonempty:
  assumes "cands \<noteq> []"
  shows "selectPalette cands \<noteq> []"
proof -
  have g: "greedySelect (enumerate 0 cands) [] \<noteq> []"
    using assms by (intro greedySelect_nonempty) (simp add: enumerate_eq_zip)
  obtain ext where "fallbackFill (enumerate 0 cands) (greedySelect (enumerate 0 cands) []) =
      greedySelect (enumerate 0 cands) [] @ ext"
    using fallbackFill_extends by blast
  with g show ?thesis
    by (simp add: selectPalette_def Let_def)
qed

lemma selectPalette_subset: "set (map snd (selectPalette cands)) \<subseteq> set cands"
proof -
  have "set (selectPalette cands) \<subseteq> set (enumerate 0 cands)"
    using greedySelect_subset [of "enumerate 0 cands" "[]"]
      fallbackFill_subset [of "enumerate 0 cands" "greedySelect (enumerate 0 cands) []"]
    by (auto simp: selectPalette_def Let_def)
  then show ?thesis
    by (auto simp: in_set_enumerate_eq)
qed

lemma paletteOf_removeBackground_nonempty:
  assumes "hasContent (removeBackground img)"
  shows "paletteOf (removeBackground img) \<noteq> []"
proof -
  from assms have "filter (\<lambda>p. \<not> isBackground (imgData img ! 0) p) (imgData img) \<noteq> []"
    by (simp add: hasContent_removeBackground filter_empty_conv)
  then have "colorAccumulator (removeBackground img) \<noteq> []"
    by (simp add: colorAccumulator_removeBackground fold_accumulate_nonempty)
  then have "candidates (colorAccumulator (removeBackground img)) \<noteq> []"
    using length_candidates [of "colorAccumulator (removeBackground img)"] by auto
  then show ?thesis
    by (simp add: paletteOf_def selectPalette_nonempty)
qed

lemma paletteOf_range:
  assumes "c \<in> set (paletteOf (removeBackground img))"
  shows "0 \<le> rgbR c \<and> rgbR c \<le> 255 \<and> 0 \<le> rgbG c \<and> rgbG c \<le> 255 \<and> 0 \<le> rgbB c \<and> rgbB c \<le> 255"
  using assms selectPalette_subset [of "candidates (colorAccumulator (removeBackground img))"]
    candidates_range [OF accOk_removeBackground, of c img]
  by (auto simp: paletteOf_def)

section \<open>The second loop\<close>

lemma fold_update_nth:
  "length (fold (\<lambda>k d'. d'[k := f (d' ! k)]) [0..<n] d) = length d \<and>
   (\<forall>k < length d. fold (\<lambda>k d'. d'[k := f (d' ! k)]) [0..<n] d ! k = (if k < n then f (d ! k) else d ! k))"
  by (induction n) (auto simp: nth_list_update less_Suc_eq)

lemma fold_update_map:
  "fold (\<lambda>k d'. d'[k := f (d' ! k)]) [0..<length d] d = map f d"
  using fold_update_nth [of f "length d" d]
  by (intro nth_equalityI) simp_all

lemma quantize_map: "palette \<noteq> [] \<Longrightarrow> quantize palette d = map (snapPixel palette) d"
  by (simp add: quantize_def fold_update_map)


lemma uint_toUint8Clamped:
  assumes "0 \<le> v" "v \<le> 255"
  shows "uint (toUint8Clamped v) = v"
proof -
  have "max 0 (min 255 v) = v"
    using assms by simp
  then have "uint (toUint8Clamped v) = take_bit 8 v"
    by (simp only: toUint8Clamped_def uint_word_of_int_eq) simp
  also have "\<dots> = v"
    using assms by (intro take_bit_int_eq_self) simp_all
  finally show ?thesis .
qed

section \<open>Fall-back, binary alpha and the background rule\<close>

lemma processLogo_passThrough: "passThrough env \<Longrightarrow> processLogo env imageUrl = Original imageUrl"
  by (auto simp: passThrough_def processLogo_def Let_def split: option.splits)

lemma processLogo_processed:
  assumes "\<not> passThrough env"
  shows "\<exists>img. decoded env = Some img \<and>
           processLogo env imageUrl =
             PngDataUrl (cropAndCenter (imgWidth img) (processedData img) (removeBackground img))"
  using assms
  by (auto simp: passThrough_def processLogo_def processedData_def Let_def split: option.splits)

lemma chA_snapPixel: "chA (snapPixel palette p) = 0 \<or> chA (snapPixel palette p) = 255"
  by (simp add: snapPixel_def Let_def)

lemma processedData_map:
  assumes "hasContent (removeBackground img)"
  shows "processedData img =
     map (snapPixel (paletteOf (removeBackground img)))
       (map (clearBackground (imgData img ! 0)) (imgData img))"
  using paletteOf_removeBackground_nonempty [OF assms]
  by (simp add: processedData_def Let_def quantize_map scanData_removeBackground)

lemma processedData_alpha:
  assumes "hasContent (removeBackground img)" "p \<in> set (processedData img)"
  shows "chA p = 0 \<or> chA p = 255"
  using assms(2) chA_snapPixel unfolding processedData_map [OF assms(1)] by auto

text \<open>
  C1. Unless the call falls back to its argument (decode error, no drawing context, no
  foreground pixel), every pixel of the processed buffer after the second loop has alpha
  0 or 255, and that buffer is what the final canvas is drawn from; in the fall-back case
  the promise resolves with exactly the string it was given.
\<close>

theorem alpha_binary_or_passThrough:
  "(passThrough env \<longrightarrow> processLogo env imageUrl = Original imageUrl) \<and>
   (\<not> passThrough env \<longrightarrow>
      (\<exists>img fc. decoded env = Some img \<and> hasContent (removeBackground img) \<and>
         processLogo env imageUrl = PngDataUrl fc \<and> sourceData fc = processedData img \<and>
         (\<forall>p \<in> set (processedData img). chA p = 0 \<or> chA p = 255)))"
proof (intro conjI impI)
  assume "passThrough env"
  then show "processLogo env imageUrl = Original imageUrl"
    by (rule processLogo_passThrough)
next
  assume np: "\<not> passThrough env"
  then obtain img where img: "decoded env = Some img"
    and res: "processLogo env imageUrl =
      PngDataUrl (cropAndCenter (imgWidth img) (processedData img) (removeBackground img))"
    using processLogo_processed by blast
  from np img have hc: "hasContent (removeBackground img)"
    by (simp add: passThrough_def)
  have "\<forall>p \<in> set (processedData img). chA p = 0 \<or> chA p = 255"
    using processedData_alpha [OF hc] by blast
  with img hc res show "\<exists>img fc. decoded env = Some img \<and> hasContent (removeBackground img) \<and>
         processLogo env imageUrl = PngDataUrl fc \<and> sourceData fc = processedData img \<and>
         (\<forall>p \<in> set (processedData img). chA p = 0 \<or> chA p = 255)"
    by (auto simp: cropAndCenter_def)
qed

lemma whiteRed_hasContent: "hasContent (removeBackground whiteRed)"
  by code_simp

lemma whiteRed_processed: "processedData whiteRed = [rgba 255 255 255 0, rgba 255 0 0 255]"
  by code_simp

theorem alpha_binary_or_passThrough_witness:
  "\<not> passThrough (allOk whiteRed) \<and>
   (\<exists>fc. processLogo (allOk whiteRed) ''logo.png'' = PngDataUrl fc \<and>
      sourceData fc = [rgba 255 255 255 0, rgba 255 0 0 255]) \<and>
   passThrough (allOk whiteRed\<lparr>ctxAvailable := False\<rparr>) \<and>
   processLogo (allOk whiteRed\<lparr>ctxAvailable := False\<rparr>) ''logo.png'' = Original ''logo.png''"
proof -
  have a: "\<not> passThrough (allOk whiteRed)"
    by (simp add: passThrough_def allOk_def whiteRed_hasContent)
  have b: "passThrough (allOk whiteRed\<lparr>ctxAvailable := False\<rparr>)"
    by (simp add: passThrough_def allOk_def)
  show ?thesis
    using alpha_binary_or_passThrough [of "allOk whiteRed" "''logo.png''"]
      alpha_binary_or_passThrough [of "allOk whiteRed\<lparr>ctxAvailable := False\<rparr>" "''logo.png''"] a b
    by (auto simp: allOk_def whiteRed_processed)
qed

text \<open>
  C5. Every internal failure resolves the promise with the argument string: a decode
  error, no drawing context at the start, no foreground pixel, no drawing context for
  the final canvas. The promise is settled through \<open>resolve\<close> only, and the only plain
  string it is resolved with is the argument.
\<close>

theorem failures_resolve_with_input:
  "(decoded env = None \<longrightarrow> processLogo env imageUrl = Original imageUrl) \<and>
   (\<not> ctxAvailable env \<longrightarrow> processLogo env imageUrl = Original imageUrl) \<and>
   (\<not> finalCtxAvailable env \<longrightarrow> processLogo env imageUrl = Original imageUrl) \<and>
   (\<forall>img. decoded env = Some img \<and>
          (\<forall>p \<in> set (imgData img). isBackground (imgData img ! 0) p) \<longrightarrow>
          processLogo env imageUrl = Original imageUrl) \<and>
   (\<forall>s. processLogo env imageUrl = Original s \<longrightarrow> s = imageUrl) \<and>
   (processLogo env imageUrl = Original imageUrl \<or> (\<exists>fc. processLogo env imageUrl = PngDataUrl fc))"
  by (auto simp: processLogo_def Let_def hasContent_removeBackground split: option.splits)

lemma whiteWhite_background:
  "\<forall>p \<in> set (imgData whiteWhite). isBackground (imgData whiteWhite ! 0) p"
  by code_simp

theorem failures_resolve_with_input_witness:
  "processLogo \<lparr>decoded = None, ctxAvailable = True, finalCtxAvailable = True\<rparr> ''logo.png''
     = Original ''logo.png'' \<and>
   processLogo \<lparr>decoded = Some whiteRed, ctxAvailable = False, finalCtxAvailable = True\<rparr> ''logo.png''
     = Original ''logo.png'' \<and>
   processLogo \<lparr>decoded = Some whiteRed, ctxAvailable = True, finalCtxAvailable = False\<rparr> ''logo.png''
     = Original ''logo.png'' \<and>
   list_all (isBackground (imgData whiteWhite ! 0)) (imgData whiteWhite) \<and>
   processLogo \<lparr>decoded = Some whiteWhite, ctxAvailable = True, finalCtxAvailable = True\<rparr> ''logo.png''
     = Original ''logo.png''"
  using failures_resolve_with_input
          [of "\<lparr>decoded = None, ctxAvailable = True, finalCtxAvailable = True\<rparr>" "''logo.png''"]
        failures_resolve_with_input
          [of "\<lparr>decoded = Some whiteRed, ctxAvailable = False, finalCtxAvailable = True\<rparr>" "''logo.png''"]
        failures_resolve_with_input
          [of "\<lparr>decoded = Some whiteRed, ctxAvailable = True, finalCtxAvailable = False\<rparr>" "''logo.png''"]
        failures_resolve_with_input
          [of "\<lparr>decoded = Some whiteWhite, ctxAvailable = True, finalCtxAvailable = True\<rparr>" "''logo.png''"]
        whiteWhite_background
  by (simp add: list_all_iff)

lemma isBackground_words:
  "isBackground bgp p =
     (if chA bgp = 0 then uint (chA p) < 20
      else dist3 (uint (chR p)) (uint (chG p)) (uint (chB p))
                 (uint (chR bgp)) (uint (chG bgp)) (uint (chB bgp)) < 40)"
  using dist3_less_iff [of 40 "uint (chR p)" "uint (chG p)" "uint (chB p)"
                            "uint (chR bgp)" "uint (chG bgp)" "uint (chB bgp)"]
  by (simp add: isBackground_def hasAlpha_def)

text \<open>
  C6. With the reference pixel at buffer index 0: if its alpha is 0, a pixel is
  background exactly when its alpha is below 20; otherwise exactly when its Euclidean
  RGB distance to the reference colour is below 40. The iteration that visits a
  background pixel sets its alpha to 0 and changes nothing else of it, a foreground
  pixel is left as it is, and so it stays to the end of the first loop.
\<close>

theorem background_rule:
  assumes "k < length (imgData img)"
  shows "(isBackground (imgData img ! 0) (imgData img ! k) =
           (if chA (imgData img ! 0) = 0 then uint (chA (imgData img ! k)) < 20
            else dist3 (uint (chR (imgData img ! k))) (uint (chG (imgData img ! k)))
                       (uint (chB (imgData img ! k)))
                       (uint (chR (imgData img ! 0))) (uint (chG (imgData img ! 0)))
                       (uint (chB (imgData img ! 0))) < 40)) \<and>
         scanData (scanPrefix img (Suc k)) ! k =
           (if isBackground (imgData img ! 0) (imgData img ! k)
            then (imgData img ! k)\<lparr>chA := 0\<rparr> else imgData img ! k) \<and>
         scanData (removeBackground img) ! k = scanData (scanPrefix img (Suc k)) ! k"
proof -
  have a: "scanData (scanPrefix img (Suc k)) ! k = clearBackground (imgData img ! 0) (imgData img ! k)"
    using scanData_prefix [of img "Suc k"] assms by simp
  have b: "scanData (removeBackground img) ! k = clearBackground (imgData img ! 0) (imgData img ! k)"
    using assms by (simp add: scanData_removeBackground)
  show ?thesis
    unfolding a b using isBackground_words [of "imgData img ! 0" "imgData img ! k"]
    by (simp add: clearBackground_def)
qed

lemma whiteRed_scan:
  "scanData (removeBackground whiteRed) = [rgba 255 255 255 0, rgba 255 0 0 255]"
  by code_simp

theorem background_rule_witness:
  "(0::nat) < length (imgData whiteRed) \<and>
   isBackground (imgData whiteRed ! 0) (imgData whiteRed ! 0) \<and>
   scanData (removeBackground whiteRed) ! 0 = (imgData whiteRed ! 0)\<lparr>chA := 0\<rparr> \<and>
   (1::nat) < length (imgData whiteRed) \<and>
   \<not> isBackground (imgData whiteRed ! 0) (imgData whiteRed ! 1) \<and>
   scanData (removeBackground whiteRed) ! 1 = imgData whiteRed ! 1"
proof -
  have l: "(0::nat) < length (imgData whiteRed)" "(1::nat) < length (imgData whiteRed)"
    by (simp_all add: whiteRed_def)
  have b0: "isBackground (imgData whiteRed ! 0) (imgData whiteRed ! 0)" by code_simp
  have b1: "\<not> isBackground (imgData whiteRed ! 0) (imgData whiteRed ! 1)" by code_simp
  show ?thesis
    using background_rule [OF l(1)] background_rule [OF l(2)] l b0 b1 by simp
qed

section \<open>The nearest palette colour\<close>

lemma closest_Some:
  "closest r g b ps (Some m) best = best \<and>
     (\<forall>q \<in> set ps. m \<le> sqDist r g b (rgbR q) (rgbG q) (rgbB q)) \<or>
   (\<exists>j < length ps. closest r g b ps (Some m) best = ps ! j \<and>
      sqDist r g b (rgbR (ps ! j)) (rgbG (ps ! j)) (rgbB (ps ! j)) < m \<and>
      (\<forall>i < j. sqDist r g b (rgbR (ps ! j)) (rgbG (ps ! j)) (rgbB (ps ! j))
                < sqDist r g b (rgbR (ps ! i)) (rgbG (ps ! i)) (rgbB (ps ! i))) \<and>
      (\<forall>i < length ps. sqDist r g b (rgbR (ps ! j)) (rgbG (ps ! j)) (rgbB (ps ! j))
                \<le> sqDist r g b (rgbR (ps ! i)) (rgbG (ps ! i)) (rgbB (ps ! i))))"
proof (induction ps arbitrary: m best)
  case Nil
  show ?case by simp
next
  case (Cons p ps)
  let ?d = "\<lambda>q. sqDist r g b (rgbR q) (rgbG q) (rgbB q)"
  show ?case
  proof (cases "?d p < m")
    case True
    then have eq: "closest r g b (p # ps) (Some m) best = closest r g b ps (Some (?d p)) p"
      by (simp add: Let_def)
    from Cons.IH [of "?d p" p] show ?thesis
    proof
      assume "closest r g b ps (Some (?d p)) p = p \<and> (\<forall>q \<in> set ps. ?d p \<le> ?d q)"
      then have "closest r g b (p # ps) (Some m) best = (p # ps) ! 0"
        and "\<forall>i < length (p # ps). ?d ((p # ps) ! 0) \<le> ?d ((p # ps) ! i)"
        by (auto simp: eq nth_Cons simp del: closest.simps split: nat.splits)
      with True show ?thesis
        by (intro disjI2 exI [of _ 0]) (simp del: closest.simps)
    next
      assume "\<exists>j < length ps. closest r g b ps (Some (?d p)) p = ps ! j \<and>
        ?d (ps ! j) < ?d p \<and> (\<forall>i < j. ?d (ps ! j) < ?d (ps ! i)) \<and>
        (\<forall>i < length ps. ?d (ps ! j) \<le> ?d (ps ! i))"
      then obtain j where j: "j < length ps" "closest r g b ps (Some (?d p)) p = ps ! j"
        "?d (ps ! j) < ?d p" "\<forall>i < j. ?d (ps ! j) < ?d (ps ! i)"
        "\<forall>i < length ps. ?d (ps ! j) \<le> ?d (ps ! i)"
        by blast
      have "\<forall>i < Suc j. ?d ((p # ps) ! Suc j) < ?d ((p # ps) ! i)"
        using j(3,4) by (auto simp: nth_Cons split: nat.splits)
      moreover have "\<forall>i < length (p # ps). ?d ((p # ps) ! Suc j) \<le> ?d ((p # ps) ! i)"
        using j(3,5) by (auto simp: nth_Cons split: nat.splits)
      moreover have "?d ((p # ps) ! Suc j) < m"
        using j(3) True by simp
      ultimately show ?thesis
        using j(1,2) eq by (intro disjI2 exI [of _ "Suc j"]) (simp del: closest.simps)
    qed
  next
    case False
    then have eq: "closest r g b (p # ps) (Some m) best = closest r g b ps (Some m) best"
      by (simp add: Let_def)
    from Cons.IH [of m best] show ?thesis
    proof
      assume "closest r g b ps (Some m) best = best \<and> (\<forall>q \<in> set ps. m \<le> ?d q)"
      with False show ?thesis
        by (intro disjI1) (simp add: eq del: closest.simps)
    next
      assume "\<exists>j < length ps. closest r g b ps (Some m) best = ps ! j \<and>
        ?d (ps ! j) < m \<and> (\<forall>i < j. ?d (ps ! j) < ?d (ps ! i)) \<and>
        (\<forall>i < length ps. ?d (ps ! j) \<le> ?d (ps ! i))"
      then obtain j where j: "j < length ps" "closest r g b ps (Some m) best = ps ! j"
        "?d (ps ! j) < m" "\<forall>i < j. ?d (ps ! j) < ?d (ps ! i)"
        "\<forall>i < length ps. ?d (ps ! j) \<le> ?d (ps ! i)"
        by blast
      have "\<forall>i < Suc j. ?d ((p # ps) ! Suc j) < ?d ((p # ps) ! i)"
        using j(3,4) False by (auto simp: nth_Cons split: nat.splits)
      moreover have "\<forall>i < length (p # ps). ?d ((p # ps) ! Suc j) \<le> ?d ((p # ps) ! i)"
        using j(3,5) False by (auto simp: nth_Cons split: nat.splits)
      ultimately show ?thesis
        using j(1,2,3) eq by (intro disjI2 exI [of _ "Suc j"]) (simp del: closest.simps)
    qed
  qed
qed

lemma closest_first_minimum:
  assumes "ps \<noteq> []"
  shows "\<exists>j < length ps. closest r g b ps None best = ps ! j \<and>
      (\<forall>i < j. sqDist r g b (rgbR (ps ! j)) (rgbG (ps ! j)) (rgbB (ps ! j))
                < sqDist r g b (rgbR (ps ! i)) (rgbG (ps ! i)) (rgbB (ps ! i))) \<and>
      (\<forall>i < length ps. sqDist r g b (rgbR (ps ! j)) (rgbG (ps ! j)) (rgbB (ps ! j))
                \<le> sqDist r g b (rgbR (ps ! i)) (rgbG (ps ! i)) (rgbB (ps ! i)))"
proof -
  let ?d = "\<lambda>q. sqDist r g b (rgbR q) (rgbG q) (rgbB q)"
  from assms obtain p ps' where ps: "ps = p # ps'"
    by (cases ps) auto
  have eq: "closest r g b ps None best = closest r g b ps' (Some (?d p)) p"
    by (simp add: ps Let_def)
  from closest_Some [of r g b ps' "?d p" p] show ?thesis
  proof
    assume "closest r g b ps' (Some (?d p)) p = p \<and> (\<forall>q \<in> set ps'. ?d p \<le> ?d q)"
    then have "closest r g b ps None best = ps ! 0"
      and "\<forall>i < length ps. ?d (ps ! 0) \<le> ?d (ps ! i)"
      by (auto simp: eq [unfolded ps] ps nth_Cons simp del: closest.simps split: nat.splits)
    then show ?thesis
      by (intro exI [of _ 0]) (simp add: ps del: closest.simps)
  next
    assume "\<exists>j < length ps'. closest r g b ps' (Some (?d p)) p = ps' ! j \<and>
        ?d (ps' ! j) < ?d p \<and> (\<forall>i < j. ?d (ps' ! j) < ?d (ps' ! i)) \<and>
        (\<forall>i < length ps'. ?d (ps' ! j) \<le> ?d (ps' ! i))"
    then obtain j where j: "j < length ps'" "closest r g b ps' (Some (?d p)) p = ps' ! j"
        "?d (ps' ! j) < ?d p" "\<forall>i < j. ?d (ps' ! j) < ?d (ps' ! i)"
        "\<forall>i < length ps'. ?d (ps' ! j) \<le> ?d (ps' ! i)"
      by blast
    have "\<forall>i < Suc j. ?d (ps ! Suc j) < ?d (ps ! i)"
      using j(3,4) by (auto simp: ps nth_Cons split: nat.splits)
    moreover have "\<forall>i < length ps. ?d (ps ! Suc j) \<le> ?d (ps ! i)"
      using j(3,5) by (auto simp: ps nth_Cons split: nat.splits)
    ultimately show ?thesis
      using j(1,2) eq [unfolded ps] by (intro exI [of _ "Suc j"]) (simp add: ps del: closest.simps)
  qed
qed

lemma foreground_after_scan:
  assumes "k < length (imgData img)" "chA (scanData (removeBackground img) ! k) \<noteq> 0"
  shows "\<not> isBackground (imgData img ! 0) (imgData img ! k)"
    and "scanData (removeBackground img) ! k = imgData img ! k"
    and "hasContent (removeBackground img)"
proof -
  have p: "scanData (removeBackground img) ! k = clearBackground (imgData img ! 0) (imgData img ! k)"
    using assms(1) by (simp add: scanData_removeBackground)
  show fg: "\<not> isBackground (imgData img ! 0) (imgData img ! k)"
    using assms(2) unfolding p by (auto simp: clearBackground_def)
  then show "scanData (removeBackground img) ! k = imgData img ! k"
    unfolding p by (simp add: clearBackground_def)
  show "hasContent (removeBackground img)"
    using fg assms(1) unfolding hasContent_removeBackground by (meson nth_mem)
qed

lemma processedData_nth:
  assumes "hasContent (removeBackground img)" "k < length (imgData img)"
  shows "processedData img ! k =
           snapPixel (paletteOf (removeBackground img)) (scanData (removeBackground img) ! k)"
  using assms(2) by (simp add: processedData_map [OF assms(1)] scanData_removeBackground)

text \<open>
  C2. A pixel whose alpha is not 0 when the second loop reaches it gets the RGB of the
  palette entry at the smallest Euclidean RGB distance from its colour before the loop,
  the first such entry in palette order, and alpha 255; so its RGB afterwards is exactly
  a member of the computed palette.
\<close>

theorem snap_to_nearest:
  assumes "k < length (imgData img)"
    and "chA (scanData (removeBackground img) ! k) \<noteq> 0"
  shows "\<exists>j < length (paletteOf (removeBackground img)).
           uint (chR (processedData img ! k)) = rgbR (paletteOf (removeBackground img) ! j) \<and>
           uint (chG (processedData img ! k)) = rgbG (paletteOf (removeBackground img) ! j) \<and>
           uint (chB (processedData img ! k)) = rgbB (paletteOf (removeBackground img) ! j) \<and>
           chA (processedData img ! k) = 255 \<and>
           (\<forall>i < length (paletteOf (removeBackground img)).
              pixelDist (scanData (removeBackground img) ! k) (paletteOf (removeBackground img) ! j)
              \<le> pixelDist (scanData (removeBackground img) ! k) (paletteOf (removeBackground img) ! i)) \<and>
           (\<forall>i < j.
              pixelDist (scanData (removeBackground img) ! k) (paletteOf (removeBackground img) ! j)
              < pixelDist (scanData (removeBackground img) ! k) (paletteOf (removeBackground img) ! i))"
proof -
  let ?pal = "paletteOf (removeBackground img)"
  let ?p = "scanData (removeBackground img) ! k"
  let ?d = "\<lambda>q. sqDist (uint (chR ?p)) (uint (chG ?p)) (uint (chB ?p)) (rgbR q) (rgbG q) (rgbB q)"
  have hc: "hasContent (removeBackground img)"
    using assms by (rule foreground_after_scan(3))
  have ne: "?pal \<noteq> []"
    using hc by (rule paletteOf_removeBackground_nonempty)
  obtain j where j: "j < length ?pal"
    and best: "closest (uint (chR ?p)) (uint (chG ?p)) (uint (chB ?p)) ?pal None (?pal ! 0) = ?pal ! j"
    and first: "\<forall>i < j. ?d (?pal ! j) < ?d (?pal ! i)"
    and least: "\<forall>i < length ?pal. ?d (?pal ! j) \<le> ?d (?pal ! i)"
    using closest_first_minimum [OF ne, of "uint (chR ?p)" "uint (chG ?p)" "uint (chB ?p)" "?pal ! 0"]
    by blast
  have q: "processedData img ! k =
      \<lparr>chR = toUint8Clamped (rgbR (?pal ! j)), chG = toUint8Clamped (rgbG (?pal ! j)),
       chB = toUint8Clamped (rgbB (?pal ! j)), chA = 255\<rparr>"
    using assms(2) by (simp add: processedData_nth [OF hc assms(1)] snapPixel_def Let_def best)
  have "?pal ! j \<in> set ?pal"
    using j by simp
  then have range: "0 \<le> rgbR (?pal ! j) \<and> rgbR (?pal ! j) \<le> 255 \<and>
      0 \<le> rgbG (?pal ! j) \<and> rgbG (?pal ! j) \<le> 255 \<and>
      0 \<le> rgbB (?pal ! j) \<and> rgbB (?pal ! j) \<le> 255"
    by (rule paletteOf_range)
  have "uint (chR (processedData img ! k)) = rgbR (?pal ! j)"
    and "uint (chG (processedData img ! k)) = rgbG (?pal ! j)"
    and "uint (chB (processedData img ! k)) = rgbB (?pal ! j)"
    and "chA (processedData img ! k) = 255"
    using range by (simp_all add: q uint_toUint8Clamped)
  moreover have "\<forall>i < length ?pal. pixelDist ?p (?pal ! j) \<le> pixelDist ?p (?pal ! i)"
    using least by (simp add: pixelDist_def dist3_le_dist3)
  moreover have "\<forall>i < j. pixelDist ?p (?pal ! j) < pixelDist ?p (?pal ! i)"
    using first by (simp add: pixelDist_def dist3_less_dist3)
  ultimately show ?thesis
    using j by blast
qed

lemma whiteRed_palette: "paletteOf (removeBackground whiteRed) = [\<lparr>rgbR = 255, rgbG = 0, rgbB = 0\<rparr>]"
  by code_simp

theorem snap_to_nearest_witness:
  "(1::nat) < length (imgData whiteRed) \<and>
   chA (scanData (removeBackground whiteRed) ! 1) \<noteq> 0 \<and>
   uint (chR (processedData whiteRed ! 1)) = 255 \<and>
   uint (chG (processedData whiteRed ! 1)) = 0 \<and>
   uint (chB (processedData whiteRed ! 1)) = 0 \<and>
   chA (processedData whiteRed ! 1) = 255"
proof -
  have l: "(1::nat) < length (imgData whiteRed)"
    by (simp add: whiteRed_def)
  have a: "chA (scanData (removeBackground whiteRed) ! 1) \<noteq> 0"
    by (simp add: whiteRed_scan rgba_def)
  show ?thesis
    using snap_to_nearest [OF l a] l a by (simp add: whiteRed_palette)
qed

section \<open>Separation in the palette\<close>

lemma separated_sorted_wrt: "separated cs = sorted_wrt (\<lambda>c d. 45 * 45 \<le> refDist c d) cs"
  by (induction cs) simp_all

lemma rgbDist_ge_iff: "(45 \<le> rgbDist c d) = (45 * 45 \<le> refDist c d)"
  using dist3_less_iff [of 45 "rgbR c" "rgbG c" "rgbB c" "rgbR d" "rgbG d" "rgbB d"]
  by (simp add: rgbDist_def refDist_def not_less [symmetric])

lemma farApart_separated: "farApart cs = separated cs"
proof
  assume f: "farApart cs"
  then have "\<forall>i j. i < j \<longrightarrow> j < length cs \<longrightarrow> 45 * 45 \<le> refDist (cs ! i) (cs ! j)"
    by (auto simp: farApart_def rgbDist_ge_iff)
  then show "separated cs"
    by (simp add: separated_sorted_wrt sorted_wrt_iff_nth_less)
next
  assume "separated cs"
  then have s: "\<And>i j. i < j \<Longrightarrow> j < length cs \<Longrightarrow> 45 * 45 \<le> refDist (cs ! i) (cs ! j)"
    by (simp add: separated_sorted_wrt sorted_wrt_iff_nth_less)
  show "farApart cs"
    unfolding farApart_def
  proof (intro allI impI)
    fix i j
    assume "i < length cs" "j < length cs" "i \<noteq> j"
    then consider "i < j" | "j < i" by linarith
    then show "45 \<le> rgbDist (cs ! i) (cs ! j)"
    proof cases
      case 1
      with s [of i j] \<open>j < length cs\<close> show ?thesis by (simp add: rgbDist_ge_iff)
    next
      case 2
      with s [of j i] \<open>i < length cs\<close> show ?thesis by (simp add: rgbDist_ge_iff refDist_sym [of "cs ! i"])
    qed
  qed
qed

lemma greedyColors_separated: "separated (greedyColors cands)"
  using greedySelect_separated [of "[]" "enumerate 0 cands"]
  by (simp add: greedyColors_def)

lemma greedyColors_length: "length (greedyColors cands) \<le> 4"
  by (simp add: greedyColors_def greedySelect_length)

lemma selectPalette_greedy_prefix:
  "\<exists>ext. map snd (selectPalette cands) = greedyColors cands @ ext"
proof -
  obtain ext where "fallbackFill (enumerate 0 cands) (greedySelect (enumerate 0 cands) []) =
      greedySelect (enumerate 0 cands) [] @ ext"
    using fallbackFill_extends by blast
  then show ?thesis
    by (auto simp: selectPalette_def greedyColors_def Let_def)
qed

lemma selectPalette_greedy_full:
  "length (greedyColors cands) = 4 \<Longrightarrow> map snd (selectPalette cands) = greedyColors cands"
  by (simp add: selectPalette_def greedyColors_def Let_def)

text \<open>
  C3, as the code has it. With a foreground pixel the palette has between 1 and 4
  entries. The colours admitted by the greedy pass are pairwise at distance 45 or more
  and are the first entries of the palette; so when the greedy pass alone admits 4
  colours, the palette is those four and every two of its colours are at distance 45 or
  more. Colours added by the fallback are not checked against the threshold.
\<close>

theorem palette_size_and_separation:
  assumes "hasContent (removeBackground img)"
  shows "1 \<le> length (paletteOf (removeBackground img)) \<and>
         length (paletteOf (removeBackground img)) \<le> 4 \<and>
         farApart (greedyColors (candidates (colorAccumulator (removeBackground img)))) \<and>
         take (length (greedyColors (candidates (colorAccumulator (removeBackground img)))))
              (paletteOf (removeBackground img))
           = greedyColors (candidates (colorAccumulator (removeBackground img))) \<and>
         (length (greedyColors (candidates (colorAccumulator (removeBackground img)))) = 4 \<longrightarrow>
            farApart (paletteOf (removeBackground img)))"
proof -
  let ?cands = "candidates (colorAccumulator (removeBackground img))"
  have "paletteOf (removeBackground img) \<noteq> []"
    using assms by (rule paletteOf_removeBackground_nonempty)
  then have "1 \<le> length (paletteOf (removeBackground img))"
    by (cases "paletteOf (removeBackground img)") simp_all
  moreover have "length (paletteOf (removeBackground img)) \<le> 4"
    by (simp add: paletteOf_def selectPalette_length)
  moreover have far: "farApart (greedyColors ?cands)"
    by (simp add: farApart_separated greedyColors_separated)
  moreover have "take (length (greedyColors ?cands)) (paletteOf (removeBackground img)) = greedyColors ?cands"
    using selectPalette_greedy_prefix [of ?cands] by (auto simp: paletteOf_def)
  moreover have "length (greedyColors ?cands) = 4 \<longrightarrow> farApart (paletteOf (removeBackground img))"
    using far by (auto simp: paletteOf_def selectPalette_greedy_full)
  ultimately show ?thesis by blast
qed

lemma fourColours_hasContent: "hasContent (removeBackground fourColours)"
  by code_simp

lemma fourColours_greedy:
  "greedyColors (candidates (colorAccumulator (removeBackground fourColours))) =
     [\<lparr>rgbR = 255, rgbG = 0, rgbB = 0\<rparr>, \<lparr>rgbR = 0, rgbG = 255, rgbB = 0\<rparr>,
      \<lparr>rgbR = 0, rgbG = 0, rgbB = 255\<rparr>, \<lparr>rgbR = 0, rgbG = 0, rgbB = 0\<rparr>]"
  by code_simp

theorem palette_size_and_separation_witness:
  "hasContent (removeBackground fourColours) \<and>
   length (greedyColors (candidates (colorAccumulator (removeBackground fourColours)))) = 4 \<and>
   length (paletteOf (removeBackground fourColours)) = 4 \<and>
   farApart (paletteOf (removeBackground fourColours))"
proof -
  have "length (paletteOf (removeBackground fourColours)) = 4"
    by code_simp
  then show ?thesis
    using palette_size_and_separation [OF fourColours_hasContent] fourColours_hasContent
    by (simp add: fourColours_greedy)
qed

text \<open>
  The specification's own statement fails on \<open>fiveColours\<close>: the candidate pool
  holds four colours pairwise at distance 45 or more and the palette has four entries,
  but the grey, ranked first, shuts three of them out of the greedy pass, and the
  fallback then adds two of them at distance 40 from the grey.
\<close>

theorem fallback_breaks_separation:
  "hasContent (removeBackground fiveColours) \<and>
   length (paletteOf (removeBackground fiveColours)) = 4 \<and>
   set [\<lparr>rgbR = 140, rgbG = 100, rgbB = 100\<rparr>, \<lparr>rgbR = 60, rgbG = 100, rgbB = 100\<rparr>,
        \<lparr>rgbR = 100, rgbG = 140, rgbB = 100\<rparr>, \<lparr>rgbR = 100, rgbG = 100, rgbB = 200\<rparr>]
     \<subseteq> set (candidates (colorAccumulator (removeBackground fiveColours))) \<and>
   farApart [\<lparr>rgbR = 140, rgbG = 100, rgbB = 100\<rparr>, \<lparr>rgbR = 60, rgbG = 100, rgbB = 100\<rparr>,
        \<lparr>rgbR = 100, rgbG = 140, rgbB = 100\<rparr>, \<lparr>rgbR = 100, rgbG = 100, rgbB = 200\<rparr>] \<and>
   paletteOf (removeBackground fiveColours) =
     [\<lparr>rgbR = 100, rgbG = 100, rgbB = 100\<rparr>, \<lparr>rgbR = 100, rgbG = 100, rgbB = 200\<rparr>,
      \<lparr>rgbR = 140, rgbG = 100, rgbB = 100\<rparr>, \<lparr>rgbR = 60, rgbG = 100, rgbB = 100\<rparr>] \<and>
   rgbDist \<lparr>rgbR = 100, rgbG = 100, rgbB = 100\<rparr> \<lparr>rgbR = 140, rgbG = 100, rgbB = 100\<rparr> = 40 \<and>
   \<not> farApart (paletteOf (removeBackground fiveColours))"
proof -
  have hc: "hasContent (removeBackground fiveColours)"
    by code_simp
  have cands: "candidates (colorAccumulator (removeBackground fiveColours)) =
     [\<lparr>rgbR = 100, rgbG = 100, rgbB = 100\<rparr>, \<lparr>rgbR = 140, rgbG = 100, rgbB = 100\<rparr>,
      \<lparr>rgbR = 60, rgbG = 100, rgbB = 100\<rparr>, \<lparr>rgbR = 100, rgbG = 140, rgbB = 100\<rparr>,
      \<lparr>rgbR = 100, rgbG = 100, rgbB = 200\<rparr>]"
    by code_simp
  have pal: "paletteOf (removeBackground fiveColours) =
     [\<lparr>rgbR = 100, rgbG = 100, rgbB = 100\<rparr>, \<lparr>rgbR = 100, rgbG = 100, rgbB = 200\<rparr>,
      \<lparr>rgbR = 140, rgbG = 100, rgbB = 100\<rparr>, \<lparr>rgbR = 60, rgbG = 100, rgbB = 100\<rparr>]"
    by code_simp
  have far: "farApart [\<lparr>rgbR = 140, rgbG = 100, rgbB = 100\<rparr>, \<lparr>rgbR = 60, rgbG = 100, rgbB = 100\<rparr>,
        \<lparr>rgbR = 100, rgbG = 140, rgbB = 100\<rparr>, \<lparr>rgbR = 100, rgbG = 100, rgbB = 200\<rparr>]"
    unfolding farApart_separated by code_simp
  have near: "\<not> farApart (paletteOf (removeBackground fiveColours))"
    unfolding farApart_separated pal by code_simp
  have "rgbDist \<lparr>rgbR = 100, rgbG = 100, rgbB = 100\<rparr> \<lparr>rgbR = 140, rgbG = 100, rgbB = 100\<rparr> = sqrt (40 * 40)"
    by (simp add: rgbDist_def dist3_def sqDist_def)
  then have d: "rgbDist \<lparr>rgbR = 100, rgbG = 100, rgbB = 100\<rparr> \<lparr>rgbR = 140, rgbG = 100, rgbB = 100\<rparr> = 40"
    by (simp only: real_sqrt_mult_self) simp
  show ?thesis
    using hc far near d by (simp add: cands pal)
qed

section \<open>The fallback\<close>

lemma enumerate_snd_inj:
  assumes "distinct xs"
  shows "inj_on snd (set (enumerate 0 xs))"
proof (rule inj_onI)
  fix a b
  assume "a \<in> set (enumerate 0 xs)" "b \<in> set (enumerate 0 xs)" "snd a = snd b"
  then have "fst a < length xs" "fst b < length xs" "xs ! fst a = xs ! fst b"
    by (auto simp: in_set_enumerate_eq)
  with assms have "fst a = fst b"
    by (simp add: nth_eq_iff_index_eq)
  with \<open>snd a = snd b\<close> show "a = b"
    by (simp add: prod_eq_iff)
qed

lemma fallbackFill_specFill:
  assumes "inj_on snd R" "set cs \<subseteq> R" "set pal \<subseteq> R"
  shows "map snd (fallbackFill cs pal) = specFill (map snd cs) (map snd pal)"
  using assms(2,3)
proof (induction cs arbitrary: pal)
  case Nil
  show ?case by simp
next
  case (Cons c cs)
  have mem: "(snd c \<in> snd ` set pal) = (c \<in> set pal)"
    using assms(1) Cons.prems by (auto simp: inj_on_def)
  show ?case
  proof (cases "length pal < 4")
    case True
    let ?pal' = "if c \<in> set pal then pal else pal @ [c]"
    have "set ?pal' \<subseteq> R"
      using Cons.prems by auto
    moreover have "set cs \<subseteq> R"
      using Cons.prems by auto
    ultimately have "map snd (fallbackFill cs ?pal') = specFill (map snd cs) (map snd ?pal')"
      by (rule Cons.IH [rotated])
    with True show ?thesis
      by (simp add: mem)
  next
    case False
    then show ?thesis by simp
  qed
qed

lemma specFill_all_present: "set cs \<subseteq> set pal \<Longrightarrow> specFill cs pal = pal"
  by (induction cs arbitrary: pal) auto

lemma greedyColors_subset: "set (greedyColors cands) \<subseteq> set cands"
  using greedySelect_subset [of "enumerate 0 cands" "[]"]
  by (auto simp: greedyColors_def in_set_enumerate_eq)

lemma selectPalette_specPalette:
  assumes "distinct cands"
  shows "map snd (selectPalette cands) = specPalette cands"
proof -
  let ?refs = "enumerate 0 cands"
  let ?g = "greedySelect ?refs []"
  have fill: "map snd (fallbackFill ?refs ?g) = specFill cands (greedyColors cands)"
    using fallbackFill_specFill [OF enumerate_snd_inj [OF assms], of ?refs ?g]
      greedySelect_subset [of ?refs "[]"]
    by (simp add: greedyColors_def)
  show ?thesis
  proof (cases "length ?g < 4 \<and> 0 < length cands")
    case True
    show ?thesis
    proof (cases "\<exists>c \<in> set cands. c \<notin> set (greedyColors cands)")
      case True
      with \<open>length ?g < 4 \<and> 0 < length cands\<close> fill show ?thesis
        by (simp add: selectPalette_def specPalette_def Let_def greedyColors_def)
    next
      case False
      then have "set cands \<subseteq> set (greedyColors cands)"
        by blast
      then have "specFill cands (greedyColors cands) = greedyColors cands"
        by (rule specFill_all_present)
      with \<open>length ?g < 4 \<and> 0 < length cands\<close> fill False show ?thesis
        by (simp add: selectPalette_def specPalette_def Let_def greedyColors_def)
    qed
  next
    case False
    show ?thesis
    proof (cases "length ?g < 4")
      case True
      with False have "cands = []" by simp
      then show ?thesis
        by (simp add: selectPalette_def specPalette_def Let_def greedyColors_def)
    next
      case False
      then show ?thesis
        by (simp add: selectPalette_def specPalette_def Let_def greedyColors_def)
    qed
  qed
qed

lemma separated_distinct: "separated cs \<Longrightarrow> distinct cs"
proof (induction cs)
  case Nil
  show ?case by simp
next
  case (Cons c cs)
  have "refDist c c = 0"
    by (simp add: refDist_def sqDist_def)
  with Cons show ?case
    by auto
qed

lemma specFill_length:
  assumes "distinct (pre @ cs)" "distinct pal" "set pre \<subseteq> set pal" "set pal \<subseteq> set (pre @ cs)"
    "length pal \<le> 4"
  shows "length (specFill cs pal) = min 4 (length (pre @ cs))"
  using assms
proof (induction cs arbitrary: pre pal)
  case Nil
  then have "set pal = set pre" by auto
  with Nil have "length pal = length pre"
    by (metis append_Nil2 distinct_card)
  with Nil show ?case by simp
next
  case (Cons c cs)
  have card: "length pal \<le> length (pre @ c # cs)"
    using Cons.prems by (metis card_mono distinct_card List.finite_set)
  show ?case
  proof (cases "4 \<le> length pal")
    case True
    with Cons.prems card show ?thesis by simp
  next
    case False
    let ?pal' = "if c \<in> set pal then pal else pal @ [c]"
    have "length (specFill cs ?pal') = min 4 (length ((pre @ [c]) @ cs))"
      using Cons.prems False by (intro Cons.IH) auto
    with False show ?thesis by simp
  qed
qed

lemma specPalette_length:
  assumes "distinct cands"
  shows "length (specPalette cands) = min 4 (length cands)"
proof -
  let ?g = "greedyColors cands"
  have dg: "distinct ?g"
    using greedyColors_separated by (rule separated_distinct)
  have fill: "length (specFill cands ?g) = min 4 (length cands)"
    using specFill_length [of "[]" cands ?g] assms dg greedyColors_subset [of cands]
      greedyColors_length [of cands]
    by simp
  show ?thesis
  proof (cases "length ?g < 4 \<and> (\<exists>c \<in> set cands. c \<notin> set ?g)")
    case True
    with fill show ?thesis by (simp add: specPalette_def Let_def)
  next
    case False
    then have "set cands \<subseteq> set ?g \<or> \<not> length ?g < 4"
      by blast
    then have "specFill cands ?g = ?g"
    proof
      assume "set cands \<subseteq> set ?g"
      then show ?thesis by (rule specFill_all_present)
    next
      assume "\<not> length ?g < 4"
      then show ?thesis by (cases cands) simp_all
    qed
    with fill False show ?thesis by (simp add: specPalette_def Let_def)
  qed
qed

text \<open>
  C7. The palette the code computes is the palette of the specification's words: when
  the greedy pass admits fewer than 4 colours and a candidate is still unused, the
  palette is filled from the start of the candidate ranking, skipping a colour already
  in the palette, until it has 4 entries or the ranking is used up. The ranking is by
  bucket count, largest first, and the palette ends with 4 entries or with every
  candidate in it.
\<close>

theorem fallback_fills_from_ranking:
  "paletteOf (removeBackground img) =
     specPalette (candidates (colorAccumulator (removeBackground img))) \<and>
   sorted (map (\<lambda>e. - count e) (sortedBuckets (colorAccumulator (removeBackground img)))) \<and>
   length (paletteOf (removeBackground img)) =
     min 4 (length (candidates (colorAccumulator (removeBackground img))))"
proof -
  have d: "distinct (candidates (colorAccumulator (removeBackground img)))"
    using accOk_removeBackground by (rule distinct_candidates)
  have eq: "paletteOf (removeBackground img) =
      specPalette (candidates (colorAccumulator (removeBackground img)))"
    unfolding paletteOf_def using d by (rule selectPalette_specPalette)
  moreover have "sorted (map (\<lambda>e. - count e) (sortedBuckets (colorAccumulator (removeBackground img))))"
    by (simp add: sortedBuckets_def)
  moreover have "length (paletteOf (removeBackground img)) =
      min 4 (length (candidates (colorAccumulator (removeBackground img))))"
    unfolding eq using d by (rule specPalette_length)
  ultimately show ?thesis by blast
qed

theorem fallback_fills_from_ranking_witness:
  "greedyColors (candidates (colorAccumulator (removeBackground fiveColours))) =
     [\<lparr>rgbR = 100, rgbG = 100, rgbB = 100\<rparr>, \<lparr>rgbR = 100, rgbG = 100, rgbB = 200\<rparr>] \<and>
   specPalette (candidates (colorAccumulator (removeBackground fiveColours))) =
     [\<lparr>rgbR = 100, rgbG = 100, rgbB = 100\<rparr>, \<lparr>rgbR = 100, rgbG = 100, rgbB = 200\<rparr>,
      \<lparr>rgbR = 140, rgbG = 100, rgbB = 100\<rparr>, \<lparr>rgbR = 60, rgbG = 100, rgbB = 100\<rparr>] \<and>
   length (candidates (colorAccumulator (removeBackground fiveColours))) = 5"
proof -
  have g: "greedyColors (candidates (colorAccumulator (removeBackground fiveColours))) =
     [\<lparr>rgbR = 100, rgbG = 100, rgbB = 100\<rparr>, \<lparr>rgbR = 100, rgbG = 100, rgbB = 200\<rparr>]"
    by code_simp
  have pal: "paletteOf (removeBackground fiveColours) =
     [\<lparr>rgbR = 100, rgbG = 100, rgbB = 100\<rparr>, \<lparr>rgbR = 100, rgbG = 100, rgbB = 200\<rparr>,
      \<lparr>rgbR = 140, rgbG = 100, rgbB = 100\<rparr>, \<lparr>rgbR = 60, rgbG = 100, rgbB = 100\<rparr>]"
    by code_simp
  have l: "length (candidates (colorAccumulator (removeBackground fiveColours))) = 5"
    by code_simp
  show ?thesis
    using fallback_fills_from_ranking [of fiveColours] g l by (simp add: pal)
qed

section \<open>The bounding box\<close>

lemma bounds_contain_prefix:
  "n \<le> length (imgData img) \<Longrightarrow> k < n \<Longrightarrow> foreground img k \<Longrightarrow>
   minX (scanPrefix img n) \<le> xOf img k \<and> xOf img k \<le> maxX (scanPrefix img n) \<and>
   minY (scanPrefix img n) \<le> yOf img k \<and> yOf img k \<le> maxY (scanPrefix img n)"
proof (induction n)
  case 0
  then show ?case by simp
next
  case (Suc n)
  show ?case
  proof (cases "k = n")
    case True
    with Suc.prems show ?thesis
      by (simp add: scanPrefix_Suc scanPixel_def Let_def scanData_read foreground_def xOf_def yOf_def)
  next
    case False
    with Suc have "minX (scanPrefix img n) \<le> xOf img k \<and> xOf img k \<le> maxX (scanPrefix img n) \<and>
        minY (scanPrefix img n) \<le> yOf img k \<and> yOf img k \<le> maxY (scanPrefix img n)"
      by simp
    then show ?thesis
      by (simp add: scanPrefix_Suc scanPixel_def Let_def)
  qed
qed

lemma bounds_attained_prefix:
  "n \<le> length (imgData img) \<Longrightarrow>
   (minX (scanPrefix img n) = int (imgWidth img) \<or>
      (\<exists>k < n. foreground img k \<and> xOf img k = minX (scanPrefix img n))) \<and>
   (maxX (scanPrefix img n) = 0 \<or>
      (\<exists>k < n. foreground img k \<and> xOf img k = maxX (scanPrefix img n))) \<and>
   (minY (scanPrefix img n) = int (imgHeight img) \<or>
      (\<exists>k < n. foreground img k \<and> yOf img k = minY (scanPrefix img n))) \<and>
   (maxY (scanPrefix img n) = 0 \<or>
      (\<exists>k < n. foreground img k \<and> yOf img k = maxY (scanPrefix img n)))"
proof (induction n)
  case 0
  show ?case by (simp add: scanPrefix_0 scanInit_def)
next
  case (Suc n)
  then have n: "n < length (imgData img)" and IH:
    "(minX (scanPrefix img n) = int (imgWidth img) \<or>
      (\<exists>k < n. foreground img k \<and> xOf img k = minX (scanPrefix img n)))"
    "(maxX (scanPrefix img n) = 0 \<or>
      (\<exists>k < n. foreground img k \<and> xOf img k = maxX (scanPrefix img n)))"
    "(minY (scanPrefix img n) = int (imgHeight img) \<or>
      (\<exists>k < n. foreground img k \<and> yOf img k = minY (scanPrefix img n)))"
    "(maxY (scanPrefix img n) = 0 \<or>
      (\<exists>k < n. foreground img k \<and> yOf img k = maxY (scanPrefix img n)))"
    by simp_all
  show ?case
  proof (cases "isBackground (imgData img ! 0) (imgData img ! n)")
    case True
    then have "minX (scanPrefix img (Suc n)) = minX (scanPrefix img n)"
      "maxX (scanPrefix img (Suc n)) = maxX (scanPrefix img n)"
      "minY (scanPrefix img (Suc n)) = minY (scanPrefix img n)"
      "maxY (scanPrefix img (Suc n)) = maxY (scanPrefix img n)"
      using n by (simp_all add: scanPrefix_Suc scanPixel_def Let_def scanData_read)
    with IH show ?thesis
      by (metis less_Suc_eq)
  next
    case False
    then have fg: "foreground img n"
      using n by (simp add: foreground_def)
    have st: "minX (scanPrefix img (Suc n)) =
        (if xOf img n < minX (scanPrefix img n) then xOf img n else minX (scanPrefix img n))"
      "maxX (scanPrefix img (Suc n)) =
        (if xOf img n > maxX (scanPrefix img n) then xOf img n else maxX (scanPrefix img n))"
      "minY (scanPrefix img (Suc n)) =
        (if yOf img n < minY (scanPrefix img n) then yOf img n else minY (scanPrefix img n))"
      "maxY (scanPrefix img (Suc n)) =
        (if yOf img n > maxY (scanPrefix img n) then yOf img n else maxY (scanPrefix img n))"
      using n False by (simp_all add: scanPrefix_Suc scanPixel_def Let_def scanData_read xOf_def yOf_def)
    have "minX (scanPrefix img (Suc n)) = int (imgWidth img) \<or>
      (\<exists>k < Suc n. foreground img k \<and> xOf img k = minX (scanPrefix img (Suc n)))"
      using IH(1) fg unfolding st by (metis less_Suc_eq)
    moreover have "maxX (scanPrefix img (Suc n)) = 0 \<or>
      (\<exists>k < Suc n. foreground img k \<and> xOf img k = maxX (scanPrefix img (Suc n)))"
      using IH(2) fg unfolding st by (metis less_Suc_eq)
    moreover have "minY (scanPrefix img (Suc n)) = int (imgHeight img) \<or>
      (\<exists>k < Suc n. foreground img k \<and> yOf img k = minY (scanPrefix img (Suc n)))"
      using IH(3) fg unfolding st by (metis less_Suc_eq)
    moreover have "maxY (scanPrefix img (Suc n)) = 0 \<or>
      (\<exists>k < Suc n. foreground img k \<and> yOf img k = maxY (scanPrefix img (Suc n)))"
      using IH(4) fg unfolding st by (metis less_Suc_eq)
    ultimately show ?thesis by blast
  qed
qed

lemma bounds_contain:
  assumes "foreground img k"
  shows "minX (removeBackground img) \<le> xOf img k \<and> xOf img k \<le> maxX (removeBackground img) \<and>
         minY (removeBackground img) \<le> yOf img k \<and> yOf img k \<le> maxY (removeBackground img)"
  using assms bounds_contain_prefix [of "length (imgData img)" img k]
  by (simp add: removeBackground_prefix foreground_def)

lemma hasContent_foreground: "hasContent (removeBackground img) = (\<exists>k. foreground img k)"
  by (simp add: hasContent_removeBackground foreground_def Bex_def in_set_conv_nth) blast

lemma coordinates_in_range:
  assumes "wellFormed img" "k < length (imgData img)"
  shows "0 \<le> xOf img k \<and> xOf img k < int (imgWidth img) \<and>
         0 \<le> yOf img k \<and> yOf img k < int (imgHeight img)"
proof -
  have "k < imgWidth img * imgHeight img" and w: "0 < imgWidth img"
    using assms by (simp_all add: wellFormed_def)
  then have "k div imgWidth img < imgHeight img"
    by (simp add: less_mult_imp_div_less mult.commute)
  with w show ?thesis
    by (simp add: xOf_def yOf_def)
qed

lemma bounds_tight:
  assumes "wellFormed img" "hasContent (removeBackground img)"
  shows "(\<exists>k. foreground img k \<and> xOf img k = minX (removeBackground img)) \<and>
         (\<exists>k. foreground img k \<and> xOf img k = maxX (removeBackground img)) \<and>
         (\<exists>k. foreground img k \<and> yOf img k = minY (removeBackground img)) \<and>
         (\<exists>k. foreground img k \<and> yOf img k = maxY (removeBackground img))"
proof -
  let ?st = "removeBackground img"
  from assms(2) obtain k0 where k0: "foreground img k0"
    by (auto simp: hasContent_foreground)
  then have r: "0 \<le> xOf img k0 \<and> xOf img k0 < int (imgWidth img) \<and>
         0 \<le> yOf img k0 \<and> yOf img k0 < int (imgHeight img)"
    using coordinates_in_range [OF assms(1), of k0] by (simp add: foreground_def)
  have c: "minX ?st \<le> xOf img k0 \<and> xOf img k0 \<le> maxX ?st \<and>
         minY ?st \<le> yOf img k0 \<and> yOf img k0 \<le> maxY ?st"
    using k0 by (rule bounds_contain)
  have a: "(minX ?st = int (imgWidth img) \<or> (\<exists>k. foreground img k \<and> xOf img k = minX ?st))"
    "(maxX ?st = 0 \<or> (\<exists>k. foreground img k \<and> xOf img k = maxX ?st))"
    "(minY ?st = int (imgHeight img) \<or> (\<exists>k. foreground img k \<and> yOf img k = minY ?st))"
    "(maxY ?st = 0 \<or> (\<exists>k. foreground img k \<and> yOf img k = maxY ?st))"
    using bounds_attained_prefix [of "length (imgData img)" img]
    by (auto simp: removeBackground_prefix)
  have "\<exists>k. foreground img k \<and> xOf img k = minX ?st"
    using a(1) r c by auto
  moreover have "\<exists>k. foreground img k \<and> xOf img k = maxX ?st"
    using a(2) r c k0 by (cases "maxX ?st = 0") (auto intro: exI [of _ k0])
  moreover have "\<exists>k. foreground img k \<and> yOf img k = minY ?st"
    using a(3) r c by auto
  moreover have "\<exists>k. foreground img k \<and> yOf img k = maxY ?st"
    using a(4) r c k0 by (cases "maxY ?st = 0") (auto intro: exI [of _ k0])
  ultimately show ?thesis by blast
qed

section \<open>The contents of the buckets\<close>

lemma accumulate_addPixel:
  "accumulate p acc =
     AList.update (keyOf p)
       (addPixel p (case map_of acc (keyOf p) of
                      None \<Rightarrow> \<lparr>sumR = 0, sumG = 0, sumB = 0, count = 0\<rparr> | Some e \<Rightarrow> e)) acc"
  by (simp add: accumulate_def addPixel_def Let_def)

lemma map_of_accumulate:
  "map_of (accumulate p acc) key =
     (if keyOf p = key
      then Some (addPixel p (case map_of acc key of
                      None \<Rightarrow> \<lparr>sumR = 0, sumG = 0, sumB = 0, count = 0\<rparr> | Some e \<Rightarrow> e))
      else map_of acc key)"
  by (auto simp: accumulate_addPixel update_conv')

lemma map_of_fold_accumulate:
  "map_of (fold accumulate ps acc) key =
     (if \<exists>p \<in> set ps. keyOf p = key
      then Some (fold addPixel (filter (\<lambda>p. keyOf p = key) ps)
                  (case map_of acc key of
                     None \<Rightarrow> \<lparr>sumR = 0, sumG = 0, sumB = 0, count = 0\<rparr> | Some e \<Rightarrow> e))
      else map_of acc key)"
proof (induction ps arbitrary: acc)
  case Nil
  show ?case by simp
next
  case (Cons p ps)
  show ?case
    by (simp add: Cons.IH map_of_accumulate)
qed

lemma fold_addPixel:
  "fold addPixel ps e =
     \<lparr>sumR = sumR e + sumR (bucketOf ps), sumG = sumG e + sumG (bucketOf ps),
      sumB = sumB e + sumB (bucketOf ps), count = count e + count (bucketOf ps)\<rparr>"
  by (induction ps arbitrary: e) (simp_all add: addPixel_def bucketOf_def)

lemma map_of_colorAccumulator:
  "map_of (colorAccumulator (removeBackground img)) key =
     (if \<exists>p \<in> set (imgData img). \<not> isBackground (imgData img ! 0) p \<and> keyOf p = key
      then Some (bucketOf (filter (\<lambda>p. keyOf p = key)
                   (filter (\<lambda>p. \<not> isBackground (imgData img ! 0) p) (imgData img))))
      else None)"
  by (auto simp: colorAccumulator_removeBackground map_of_fold_accumulate fold_addPixel bucketOf_def)

text \<open>
  C10. In colour mode (the reference pixel's alpha is not 0) a pixel with alpha 0 at RGB
  distance 40 or more from the reference colour is foreground: \<open>hasContent\<close> is set,
  the bounding box contains its position, and its bucket holds the sums and the count
  of all foreground pixels with its key, this pixel among them. The second loop skips
  it: in the processed buffer it is what it was in the input, alpha 0 and RGB unchanged.
\<close>

theorem transparent_foreground:
  assumes "k < length (imgData img)"
    and "chA (imgData img ! 0) \<noteq> 0"
    and "chA (imgData img ! k) = 0"
    and "40 \<le> dist3 (uint (chR (imgData img ! k))) (uint (chG (imgData img ! k)))
                     (uint (chB (imgData img ! k)))
                     (uint (chR (imgData img ! 0))) (uint (chG (imgData img ! 0)))
                     (uint (chB (imgData img ! 0)))"
  shows "\<not> isBackground (imgData img ! 0) (imgData img ! k) \<and>
         hasContent (removeBackground img) \<and>
         minX (removeBackground img) \<le> xOf img k \<and> xOf img k \<le> maxX (removeBackground img) \<and>
         minY (removeBackground img) \<le> yOf img k \<and> yOf img k \<le> maxY (removeBackground img) \<and>
         map_of (colorAccumulator (removeBackground img)) (keyOf (imgData img ! k)) =
           Some (bucketOf (filter (\<lambda>q. keyOf q = keyOf (imgData img ! k))
                   (filter (\<lambda>q. \<not> isBackground (imgData img ! 0) q) (imgData img)))) \<and>
         imgData img ! k \<in> set (filter (\<lambda>q. keyOf q = keyOf (imgData img ! k))
                   (filter (\<lambda>q. \<not> isBackground (imgData img ! 0) q) (imgData img))) \<and>
         processedData img ! k = imgData img ! k"
proof -
  let ?p = "imgData img ! k"
  have fg: "\<not> isBackground (imgData img ! 0) ?p"
    using assms(2,4) by (simp add: isBackground_words)
  then have f: "foreground img k"
    using assms(1) by (simp add: foreground_def)
  then have hc: "hasContent (removeBackground img)"
    by (auto simp: hasContent_foreground)
  have mem: "?p \<in> set (imgData img)"
    using assms(1) by simp
  have bucket: "map_of (colorAccumulator (removeBackground img)) (keyOf ?p) =
      Some (bucketOf (filter (\<lambda>q. keyOf q = keyOf ?p)
              (filter (\<lambda>q. \<not> isBackground (imgData img ! 0) q) (imgData img))))"
    using fg mem by (auto simp: map_of_colorAccumulator)
  have "scanData (removeBackground img) ! k = ?p"
    using assms(1) fg by (simp add: scanData_removeBackground clearBackground_def)
  then have "processedData img ! k = ?p"
    using assms(3) by (simp add: processedData_nth [OF hc assms(1)] snapPixel_def)
  with fg hc bounds_contain [OF f] bucket mem show ?thesis
    by simp
qed

theorem transparent_foreground_witness:
  "(1::nat) < length (imgData whiteClear) \<and>
   chA (imgData whiteClear ! 0) \<noteq> 0 \<and>
   chA (imgData whiteClear ! 1) = 0 \<and>
   hasContent (removeBackground whiteClear) \<and>
   minX (removeBackground whiteClear) = 1 \<and> maxX (removeBackground whiteClear) = 1 \<and>
   map_of (colorAccumulator (removeBackground whiteClear)) (0, 0, 0) =
     Some \<lparr>sumR = 0, sumG = 0, sumB = 0, count = 1\<rparr> \<and>
   processedData whiteClear ! 1 = rgba 0 0 0 0"
proof -
  have l: "(1::nat) < length (imgData whiteClear)"
    by (simp add: whiteClear_def)
  have a0: "chA (imgData whiteClear ! 0) \<noteq> 0"
    by (simp add: whiteClear_def rgba_def)
  have a1: "chA (imgData whiteClear ! 1) = 0"
    by (simp add: whiteClear_def rgba_def)
  have e: "(dist3 0 0 0 255 255 255 < real_of_int 40) = (sqDist 0 0 0 255 255 255 < 40 * 40)"
    by (rule dist3_less_iff) simp
  have "\<not> sqDist 0 0 0 255 255 255 < 40 * 40"
    by (simp add: sqDist_def)
  with e have "40 \<le> dist3 0 0 0 255 255 255"
    by simp
  then have d: "40 \<le> dist3 (uint (chR (imgData whiteClear ! 1))) (uint (chG (imgData whiteClear ! 1)))
                     (uint (chB (imgData whiteClear ! 1)))
                     (uint (chR (imgData whiteClear ! 0))) (uint (chG (imgData whiteClear ! 0)))
                     (uint (chB (imgData whiteClear ! 0)))"
    by (simp add: whiteClear_def rgba_def)
  have mn: "minX (removeBackground whiteClear) = 1" by code_simp
  have mx: "maxX (removeBackground whiteClear) = 1" by code_simp
  have key: "keyOf (imgData whiteClear ! 1) = (0, 0, 0)" by code_simp
  have fl: "filter (\<lambda>q. keyOf q = (0, 0, 0))
                   (filter (\<lambda>q. \<not> isBackground (imgData whiteClear ! 0) q) (imgData whiteClear))
            = [rgba 0 0 0 0]"
    by code_simp
  have p1: "imgData whiteClear ! 1 = rgba 0 0 0 0"
    by (simp add: whiteClear_def)
  note t = transparent_foreground [OF l a0 a1 d]
  from t have hc: "hasContent (removeBackground whiteClear)"
    by blast
  from t have "map_of (colorAccumulator (removeBackground whiteClear)) (keyOf (imgData whiteClear ! 1)) =
           Some (bucketOf (filter (\<lambda>q. keyOf q = keyOf (imgData whiteClear ! 1))
                   (filter (\<lambda>q. \<not> isBackground (imgData whiteClear ! 0) q) (imgData whiteClear))))"
    by blast
  then have "map_of (colorAccumulator (removeBackground whiteClear)) (0, 0, 0) =
      Some (bucketOf [rgba 0 0 0 0])"
    unfolding key fl .
  then have m: "map_of (colorAccumulator (removeBackground whiteClear)) (0, 0, 0) =
      Some \<lparr>sumR = 0, sumG = 0, sumB = 0, count = 1\<rparr>"
    by (simp add: bucketOf_def rgba_def)
  from t have "processedData whiteClear ! 1 = imgData whiteClear ! 1"
    by blast
  then have pd: "processedData whiteClear ! 1 = rgba 0 0 0 0"
    unfolding p1 .
  from l a0 a1 hc mn mx m pd show ?thesis
    by blast
qed

section \<open>The final canvas\<close>

lemma scenarioA_bounds:
  "hasContent (removeBackground scenarioA) \<and>
   minX (removeBackground scenarioA) = 3 \<and> minY (removeBackground scenarioA) = 3 \<and>
   maxX (removeBackground scenarioA) = 6 \<and> maxY (removeBackground scenarioA) = 6"
  by code_simp

lemma floor_size: "\<lfloor>(of_int m :: rat) * (6 / 5)\<rfloor> = (6 * m) div 5"
proof -
  have "(of_int m :: rat) * (6 / 5) = of_int (6 * m) / of_int 5"
    by simp
  then show ?thesis
    by (simp only: floor_divide_of_int_eq)
qed

lemma ceiling_size: "\<lceil>(of_int m :: rat) * (6 / 5)\<rceil> = - ((- (6 * m)) div 5)"
proof -
  have "- ((of_int m :: rat) * (6 / 5)) = of_int (- (6 * m)) / of_int 5"
    by simp
  then show ?thesis
    unfolding ceiling_def by (simp only: floor_divide_of_int_eq)
qed

lemma floor_is_ceiling_iff:
  "(\<lfloor>(of_int m :: rat) * (6 / 5)\<rfloor> = \<lceil>(of_int m :: rat) * (6 / 5)\<rceil>) = (m mod 5 = 0)"
  unfolding floor_size ceiling_size by presburger

lemma processLogo_result:
  assumes "decoded env = Some img" "\<not> passThrough env"
  shows "processLogo env imageUrl =
           PngDataUrl (cropAndCenter (imgWidth img) (processedData img) (removeBackground img))"
  using processLogo_processed [OF assms(2), of imageUrl] assms(1) by simp

lemma content_positive:
  assumes "wellFormed img" "hasContent (removeBackground img)"
  shows "0 \<le> minX (removeBackground img) \<and> minX (removeBackground img) \<le> maxX (removeBackground img) \<and>
         maxX (removeBackground img) < int (imgWidth img) \<and>
         0 \<le> minY (removeBackground img) \<and> minY (removeBackground img) \<le> maxY (removeBackground img) \<and>
         maxY (removeBackground img) < int (imgHeight img)"
proof -
  from bounds_tight [OF assms] obtain a b c d where
    a: "foreground img a" "xOf img a = minX (removeBackground img)" and
    b: "foreground img b" "xOf img b = maxX (removeBackground img)" and
    c: "foreground img c" "yOf img c = minY (removeBackground img)" and
    d: "foreground img d" "yOf img d = maxY (removeBackground img)"
    by blast
  show ?thesis
    using coordinates_in_range [OF assms(1), of a] coordinates_in_range [OF assms(1), of b]
      coordinates_in_range [OF assms(1), of c] coordinates_in_range [OF assms(1), of d]
      bounds_contain [OF a(1)] bounds_contain [OF c(1)] a b c d
    by (simp add: foreground_def)
qed

text \<open>
  C4, as the code has it. With a foreground pixel (and both contexts) the final canvas
  is square, and its side is the integer part of \<open>max(contentWidth, contentHeight) * 1.2\<close>:
  the source multiplies by 1.2 and assigns the product, unrounded, to \<open>width\<close> and
  \<open>height\<close>. The side is the rounded-up value exactly when the larger content dimension
  is a multiple of 5. \<open>contentWidth = maxX - minX + 1\<close> and
  \<open>contentHeight = maxY - minY + 1\<close>, where the four bounds are the least and greatest
  column and row of a foreground pixel.
\<close>

theorem final_canvas_side:
  assumes "decoded env = Some img" and "wellFormed img" and "\<not> passThrough env"
  shows "\<exists>fc. processLogo env imageUrl = PngDataUrl fc \<and>
           finalHeight fc = finalWidth fc \<and>
           finalWidth fc =
             \<lfloor>(of_int (max (contentWidth (removeBackground img))
                             (contentHeight (removeBackground img))) :: rat) * (6 / 5)\<rfloor> \<and>
           finalWidth fc =
             (6 * max (contentWidth (removeBackground img))
                      (contentHeight (removeBackground img))) div 5 \<and>
           ((finalWidth fc =
               \<lceil>(of_int (max (contentWidth (removeBackground img))
                               (contentHeight (removeBackground img))) :: rat) * (6 / 5)\<rceil>) =
            (max (contentWidth (removeBackground img))
                 (contentHeight (removeBackground img)) mod 5 = 0)) \<and>
           contentWidth (removeBackground img) =
             maxX (removeBackground img) - minX (removeBackground img) + 1 \<and>
           contentHeight (removeBackground img) =
             maxY (removeBackground img) - minY (removeBackground img) + 1 \<and>
           (\<forall>k. foreground img k \<longrightarrow>
              minX (removeBackground img) \<le> xOf img k \<and> xOf img k \<le> maxX (removeBackground img) \<and>
              minY (removeBackground img) \<le> yOf img k \<and> yOf img k \<le> maxY (removeBackground img)) \<and>
           (\<exists>k. foreground img k \<and> xOf img k = minX (removeBackground img)) \<and>
           (\<exists>k. foreground img k \<and> xOf img k = maxX (removeBackground img)) \<and>
           (\<exists>k. foreground img k \<and> yOf img k = minY (removeBackground img)) \<and>
           (\<exists>k. foreground img k \<and> yOf img k = maxY (removeBackground img))"
proof -
  let ?st = "removeBackground img"
  let ?fc = "cropAndCenter (imgWidth img) (processedData img) ?st"
  let ?m = "max (contentWidth ?st) (contentHeight ?st)"
  have hc: "hasContent ?st"
    using assms(1,3) by (simp add: passThrough_def)
  have res: "processLogo env imageUrl = PngDataUrl ?fc"
    using assms(1,3) by (rule processLogo_result)
  have w: "finalWidth ?fc = \<lfloor>(of_int ?m :: rat) * (6 / 5)\<rfloor>"
    and h: "finalHeight ?fc = finalWidth ?fc"
    by (simp_all add: cropAndCenter_def canvasDimension_def cropSize_def)
  have w': "finalWidth ?fc = (6 * ?m) div 5"
    unfolding w by (rule floor_size)
  have c: "(finalWidth ?fc = \<lceil>(of_int ?m :: rat) * (6 / 5)\<rceil>) = (?m mod 5 = 0)"
    unfolding w by (rule floor_is_ceiling_iff)
  have box: "\<forall>k. foreground img k \<longrightarrow>
              minX ?st \<le> xOf img k \<and> xOf img k \<le> maxX ?st \<and>
              minY ?st \<le> yOf img k \<and> yOf img k \<le> maxY ?st"
    using bounds_contain by blast
  show ?thesis
    using res h w w' c box bounds_tight [OF assms(2) hc]
    by (intro exI [of _ ?fc]) (simp add: contentWidth_def contentHeight_def)
qed

lemma scenarioA_wellFormed: "wellFormed scenarioA"
  by (simp add: wellFormed_def scenarioA_def)

lemma scenarioA_not_passThrough: "\<not> passThrough (allOk scenarioA)"
  by (simp add: passThrough_def allOk_def scenarioA_bounds)

lemma scenarioA_content:
  "contentWidth (removeBackground scenarioA) = 4 \<and> contentHeight (removeBackground scenarioA) = 4"
  by (simp add: contentWidth_def contentHeight_def scenarioA_bounds)

theorem final_canvas_side_witness:
  "decoded (allOk scenarioA) = Some scenarioA \<and> wellFormed scenarioA \<and>
   \<not> passThrough (allOk scenarioA) \<and>
   (\<exists>fc. processLogo (allOk scenarioA) ''logo.png'' = PngDataUrl fc \<and>
      finalWidth fc = 4 \<and> finalHeight fc = 4)"
proof -
  have d: "decoded (allOk scenarioA) = Some scenarioA"
    by (simp add: allOk_def)
  show ?thesis
    using final_canvas_side [OF d scenarioA_wellFormed scenarioA_not_passThrough, of "''logo.png''"]
      d scenarioA_wellFormed scenarioA_not_passThrough
    by (auto simp: scenarioA_content)
qed

text \<open>
  On Scenario A the content is 4 by 4 in the box (3,3)-(6,6) and the product is 4.8:
  the final canvas is 4 by 4, not the 5 by 5 of the rounded-up value.
\<close>

theorem scenarioA_side_is_four:
  "minX (removeBackground scenarioA) = 3 \<and> minY (removeBackground scenarioA) = 3 \<and>
   maxX (removeBackground scenarioA) = 6 \<and> maxY (removeBackground scenarioA) = 6 \<and>
   contentWidth (removeBackground scenarioA) = 4 \<and>
   contentHeight (removeBackground scenarioA) = 4 \<and>
   cropSize (removeBackground scenarioA) = 24 / 5 \<and>
   \<lceil>cropSize (removeBackground scenarioA)\<rceil> = 5 \<and>
   (case processLogo (allOk scenarioA) ''logo.png'' of
      Original s \<Rightarrow> False
    | PngDataUrl fc \<Rightarrow> finalWidth fc = 4 \<and> finalHeight fc = 4 \<and>
        finalWidth fc \<noteq> \<lceil>cropSize (removeBackground scenarioA)\<rceil>)"
proof -
  have d: "decoded (allOk scenarioA) = Some scenarioA"
    by (simp add: allOk_def)
  have s: "cropSize (removeBackground scenarioA) = 24 / 5"
    by (simp add: cropSize_def scenarioA_content)
  have c: "\<lceil>24 / 5 :: rat\<rceil> = 5"
    by (simp add: ceiling_eq_iff)
  have f: "\<lfloor>24 / 5 :: rat\<rfloor> = 4"
    by (simp add: floor_eq_iff)
  show ?thesis
    unfolding processLogo_result [OF d scenarioA_not_passThrough]
    using scenarioA_bounds scenarioA_content
    by (simp add: s c f cropAndCenter_def canvasDimension_def)
qed

section \<open>A run on an alpha-masked image\<close>





























section \<open>Doubles\<close>

lemma bitLength_bounds:
  "0 < n \<Longrightarrow> 1 \<le> bitLength n \<and> 2 ^ nat (bitLength n - 1) \<le> n \<and> n < 2 ^ nat (bitLength n)"
proof (induction n rule: bitLength.induct)
  case (1 n)
  show ?case
  proof (cases "n div 2 = 0")
    case True
    with "1.prems" have "n = 1" by presburger
    moreover have "bitLength 1 = 1"
      by (simp add: bitLength.simps [of 1] bitLength.simps [of 0])
    ultimately show ?thesis by simp
  next
    case False
    with "1.prems" have pos: "0 < n div 2" by presburger
    let ?l = "bitLength (n div 2)"
    from "1.IH" "1.prems" pos have IH: "1 \<le> ?l" "2 ^ nat (?l - 1) \<le> n div 2" "n div 2 < 2 ^ nat ?l"
      by simp_all
    have bl: "bitLength n = 1 + ?l"
      using "1.prems" by (subst bitLength.simps) simp
    have e: "(2::int) ^ nat ?l = 2 * 2 ^ nat (?l - 1)"
      using IH(1) by (metis Suc_nat_eq_nat_zadd1 diff_add_cancel diff_ge_0_iff_ge power_Suc add.commute)
    have "2 * (n div 2) \<le> n" and "n < 2 * (n div 2) + 2"
      by presburger+
    with IH e have "2 ^ nat ?l \<le> n" and "n < 2 * 2 ^ nat ?l"
      by linarith+
    moreover have "nat (1 + ?l) = Suc (nat ?l)"
      using IH(1) by simp
    ultimately show ?thesis
      using IH(1) by (simp add: bl)
  qed
qed

lemma roundEven_near: "\<bar>of_int (roundEven y) - y\<bar> \<le> 1 / 2"
proof -
  have "of_int \<lfloor>y\<rfloor> \<le> y" and "y < of_int \<lfloor>y\<rfloor> + 1"
    by linarith+
  then show ?thesis
    by (auto simp: roundEven_def Let_def)
qed

lemma binaryExponent_le:
  assumes "0 < x"
  shows "2 powi (binaryExponent x) \<le> x"
proof -
  obtain p q where pq: "quotient_of x = (p, q)"
    by (cases "quotient_of x")
  then have x: "x = of_int p / of_int q" and q: "0 < q"
    by (simp_all add: quotient_of_div quotient_of_denom_pos)
  have p: "0 < p"
    using assms q unfolding x by (simp add: zero_less_divide_iff)
  let ?a = "bitLength p" and ?b = "bitLength q"
  from bitLength_bounds [OF p] have a: "1 \<le> ?a" "2 ^ nat (?a - 1) \<le> p" by simp_all
  from bitLength_bounds [OF q] have b: "1 \<le> ?b" "q < 2 ^ nat ?b" by simp_all
  have low: "2 powi (?a - ?b - 1) \<le> x"
  proof -
    have "(2::rat) powi (?a - ?b - 1) = 2 powi (?a - 1) / 2 powi ?b"
      by (simp add: power_int_diff)
    also have "\<dots> = 2 ^ nat (?a - 1) / 2 ^ nat ?b"
      using a(1) b(1) by (simp add: power_int_def)
    also have "\<dots> \<le> of_int p / of_int q"
    proof (rule frac_le)
      show "(0::rat) \<le> of_int p" using p by simp
      show "(2::rat) ^ nat (?a - 1) \<le> of_int p"
        using a(2) by (metis of_int_le_iff of_int_numeral of_int_power)
      show "(0::rat) < of_int q" using q by simp
      show "(of_int q :: rat) \<le> 2 ^ nat ?b"
        using b(2) by (metis less_imp_le of_int_le_iff of_int_numeral of_int_power)
    qed
    finally show ?thesis unfolding x .
  qed
  show ?thesis
    using low by (simp add: binaryExponent_def pq Let_def)
qed

lemma toDouble_error:
  assumes "0 < x"
  shows "\<bar>toDouble x - x\<bar> \<le> x / 2 ^ 53"
proof -
  let ?e = "binaryExponent x"
  let ?u = "(2::rat) powi (?e - 52)"
  have u: "0 < ?u" by simp
  have td: "toDouble x = of_int (roundEven (x / ?u)) * ?u"
    using assms by (simp add: toDouble_def Let_def)
  have "toDouble x - x = (of_int (roundEven (x / ?u)) - x / ?u) * ?u"
    using u by (simp add: td field_simps)
  then have "\<bar>toDouble x - x\<bar> = \<bar>of_int (roundEven (x / ?u)) - x / ?u\<bar> * ?u"
    using u by (simp add: abs_mult)
  also have "\<dots> \<le> (1 / 2) * ?u"
    using roundEven_near [of "x / ?u"] u by (intro mult_right_mono) simp_all
  also have "\<dots> = 2 powi ?e / 2 ^ 53"
    by (simp add: power_int_diff)
  also have "\<dots> \<le> x / 2 ^ 53"
    using binaryExponent_le [OF assms] by (simp add: divide_right_mono)
  finally show ?thesis .
qed

lemma onePointTwo: "toDouble (6 / 5) = 5404319552844595 / 4503599627370496"
  by code_simp

section \<open>The destination offsets\<close>

lemma toDouble_tight:
  assumes "0 < x"
  shows "x * (9007199254740991 / 9007199254740992) \<le> toDouble x"
    and "toDouble x \<le> x * (9007199254740993 / 9007199254740992)"
proof -
  have p: "(2 :: rat) ^ 53 = 9007199254740992"
    by simp
  have "\<bar>toDouble x - x\<bar> \<le> x * (1 / 9007199254740992)"
    using toDouble_error [OF assms] unfolding p by simp
  then have a: "toDouble x - x \<le> x * (1 / 9007199254740992)"
    and b: "x - toDouble x \<le> x * (1 / 9007199254740992)"
    by linarith+
  show "x * (9007199254740991 / 9007199254740992) \<le> toDouble x"
    using b by linarith
  show "toDouble x \<le> x * (9007199254740993 / 9007199254740992)"
    using a by linarith
qed




section \<open>The canvas side in doubles\<close>

text \<open>
  A double operation whose exact result is close enough to a whole number below
  \<open>2^53\<close> returns that number.
\<close>

lemma binaryExponent_less:
  assumes "0 < x"
  shows "x < 2 powi (binaryExponent x + 1)"
proof -
  obtain p q where pq: "quotient_of x = (p, q)"
    by (cases "quotient_of x")
  then have x: "x = of_int p / of_int q" and q: "0 < q"
    by (simp_all add: quotient_of_div quotient_of_denom_pos)
  have p: "0 < p"
    using assms q unfolding x by (simp add: zero_less_divide_iff)
  let ?a = "bitLength p" and ?b = "bitLength q"
  from bitLength_bounds [OF p] have a: "1 \<le> ?a" "p < 2 ^ nat ?a" by simp_all
  from bitLength_bounds [OF q] have b: "1 \<le> ?b" "2 ^ nat (?b - 1) \<le> q" by simp_all
  have up: "x < 2 powi (?a - ?b + 1)"
  proof -
    have "of_int p / of_int q < (2::rat) ^ nat ?a / 2 ^ nat (?b - 1)"
    proof (rule frac_less)
      show "(0::rat) \<le> of_int p" using p by simp
      show "(of_int p :: rat) < 2 ^ nat ?a"
        using a(2) by (metis of_int_less_iff of_int_numeral of_int_power)
      show "(0::rat) < 2 ^ nat (?b - 1)" by simp
      show "(2::rat) ^ nat (?b - 1) \<le> of_int q"
        using b(2) by (metis of_int_le_iff of_int_numeral of_int_power)
    qed
    also have "\<dots> = 2 powi ?a / 2 powi (?b - 1)"
      using a(1) b(1) by (simp add: power_int_def)
    also have "\<dots> = 2 powi (?a - ?b + 1)"
      by (simp add: power_int_diff power_int_add)
    finally show ?thesis unfolding x .
  qed
  show ?thesis
  proof (cases "2 powi (?a - ?b) \<le> x")
    case True
    then show ?thesis
      using up by (simp add: binaryExponent_def pq Let_def)
  next
    case False
    then show ?thesis
      by (simp add: binaryExponent_def pq Let_def)
  qed
qed

lemma roundEven_unique:
  assumes "\<bar>y - of_int z\<bar> < 1 / 2"
  shows "roundEven y = z"
proof -
  have "\<bar>(of_int (roundEven y) :: rat) - of_int z\<bar> < 1"
    using roundEven_near [of y] assms by linarith
  then have "\<bar>(of_int (roundEven y - z) :: rat)\<bar> < 1"
    by simp
  then have "\<bar>roundEven y - z\<bar> < 1"
    by (metis of_int_abs of_int_less_1_iff)
  then show ?thesis
    by simp
qed

lemma toDouble_near_integer:
  assumes "0 < x" "x < 2 ^ 53" and "\<bar>x - of_int N\<bar> * 2 ^ 54 < x"
  shows "toDouble x = of_int N"
proof -
  let ?e = "binaryExponent x"
  let ?u = "(2::rat) powi (?e - 52)"
  have u: "0 < ?u" by simp
  have "(2::rat) powi 53 = 2 ^ 53"
    by (simp add: power_int_def)
  then have "(2::rat) powi ?e < 2 powi 53"
    using binaryExponent_le [OF assms(1)] assms(2) by linarith
  then have e: "?e < 53"
    by (rule power_int_le_imp_less_exp [rotated]) simp_all
  define n where "n = nat (52 - ?e)"
  have iu: "1 / ?u = 2 ^ n"
    using e by (simp add: n_def power_int_def field_simps)
  have xu: "x < ?u * 2 ^ 53"
  proof -
    have "?u * 2 ^ 53 = 2 powi (?e + 1)"
      by (simp add: power_int_diff power_int_add)
    then show ?thesis
      using binaryExponent_less [OF assms(1)] by simp
  qed
  have "\<bar>x - of_int N\<bar> * 2 ^ 54 < ?u * 2 ^ 53"
    using assms(3) xu by linarith
  then have d: "\<bar>x - of_int N\<bar> < ?u * (1 / 2)"
    by simp
  have "x / ?u = x * (1 / ?u)"
    by simp
  then have xu': "x / ?u = x * 2 ^ n"
    unfolding iu .
  have "(x - of_int N) / ?u = (x - of_int N) * (1 / ?u)"
    by simp
  then have "(x - of_int N) / ?u = (x - of_int N) * 2 ^ n"
    unfolding iu .
  then have "x / ?u - of_int (N * 2 ^ n) = (x - of_int N) / ?u"
    unfolding xu' by (simp add: algebra_simps)
  then have "\<bar>x / ?u - of_int (N * 2 ^ n)\<bar> = \<bar>x - of_int N\<bar> / ?u"
    using u by (simp add: abs_divide del: of_int_mult)
  also have "\<dots> < 1 / 2"
    using d u by (simp add: field_simps)
  finally have "roundEven (x / ?u) = N * 2 ^ n"
    by (rule roundEven_unique)
  then have "toDouble x = of_int (N * 2 ^ n) * ?u"
    using assms(1) by (simp add: toDouble_def Let_def)
  also have "\<dots> = of_int N * ((1 / ?u) * ?u)"
    unfolding iu by simp
  also have "\<dots> = of_int N"
    using u by simp
  finally show ?thesis .
qed

text \<open>
  The integer part of the double \<open>size\<close> is the integer part of the exact product with
  \<open>6/5\<close>, which the model takes for the canvas side: when 5 divides the maximum the
  double product is the whole number itself, and otherwise the rounding errors are far
  smaller than the distance of the exact product, at least \<open>1/5\<close>, to the next whole
  number.
\<close>

lemma canvas_side_of_double:
  fixes m :: int
  assumes "1 \<le> m" "m \<le> 2 ^ 32"
  shows "\<lfloor>toDouble (of_int m * toDouble (6 / 5))\<rfloor> = \<lfloor>(of_int m :: rat) * (6 / 5)\<rfloor>"
proof (cases "5 dvd m")
  case True
  then obtain n where n: "m = 5 * n"
    by (rule dvdE)
  define R :: rat where "R = of_int n"
  have R: "1 / 5 \<le> R" "R \<le> 4294967296"
    using assms by (simp_all add: R_def n)
  define x where "x = R * (27021597764222975 / 4503599627370496)"
  have x: "of_int m * toDouble (6 / 5) = x"
    by (simp add: x_def R_def n onePointTwo)
  have N: "(of_int (6 * n) :: rat) = R * 6"
    by (simp add: R_def)
  have p: "(2 :: rat) ^ 53 = 9007199254740992" "(2 :: rat) ^ 54 = 18014398509481984"
    by simp_all
  have "x - of_int (6 * n) = - (R * (1 / 4503599627370496))"
    unfolding N x_def by simp
  then have a: "\<bar>x - of_int (6 * n)\<bar> = R * (1 / 4503599627370496)"
    using R by simp
  have "toDouble x = of_int (6 * n)"
  proof (rule toDouble_near_integer)
    show "0 < x"
      using R by (simp add: x_def)
    show "x < 2 ^ 53"
      unfolding p x_def using R by linarith
    show "\<bar>x - of_int (6 * n)\<bar> * 2 ^ 54 < x"
      unfolding a unfolding p x_def using R by linarith
  qed
  moreover have "(of_int m :: rat) * (6 / 5) = of_int (6 * n)"
    by (simp add: n)
  ultimately show ?thesis
    unfolding x by (simp only: floor_of_int)
next
  case False
  define F where "F = (6 * m) div 5"
  define r where "r = (6 * m) mod 5"
  have "r \<noteq> 0"
    using False unfolding r_def by presburger
  then have r: "1 \<le> r" "r \<le> 4"
    unfolding r_def by presburger+
  have "6 * m = 5 * F + r"
    by (simp add: F_def r_def)
  then have "(of_int (6 * m) :: rat) = of_int (5 * F + r)"
    by simp
  then have e: "(of_int m :: rat) * 6 = of_int F * 5 + of_int r"
    by simp
  define M :: rat where "M = of_int m"
  define F' :: rat where "F' = of_int F"
  define r' :: rat where "r' = of_int r"
  have b: "1 \<le> M" "M \<le> 4294967296" "1 \<le> r'" "r' \<le> 4" "M * 6 = F' * 5 + r'"
    using assms r e by (simp_all add: M_def F'_def r'_def)
  define x where "x = M * (5404319552844595 / 4503599627370496)"
  have x: "of_int m * toDouble (6 / 5) = x"
    by (simp add: x_def M_def onePointTwo)
  have "0 < x"
    using b by (simp add: x_def)
  note t = toDouble_tight [OF this]
  have lo: "F' \<le> toDouble x"
    using t(1) b unfolding x_def by linarith
  have hi: "toDouble x < F' + 1"
    using t(2) b unfolding x_def by linarith
  have "\<lfloor>toDouble x\<rfloor> = F"
    using lo hi unfolding F'_def by (intro floor_unique) simp_all
  then show ?thesis
    unfolding x floor_size F_def .
qed

lemma canvasDimension_sizeDouble:
  assumes "wellFormed img" "hasContent (removeBackground img)"
    and "int (imgWidth img) \<le> 2 ^ 32" "int (imgHeight img) \<le> 2 ^ 32"
  shows "canvasDimension (sizeDouble (removeBackground img))
           = canvasDimension (cropSize (removeBackground img))"
proof -
  let ?st = "removeBackground img"
  let ?m = "max (contentWidth ?st) (contentHeight ?st)"
  have p: "(2 :: int) ^ 32 = 4294967296"
    by simp
  have "1 \<le> contentWidth ?st" "contentWidth ?st \<le> 2 ^ 32"
      "1 \<le> contentHeight ?st" "contentHeight ?st \<le> 2 ^ 32"
    using content_positive [OF assms(1,2)] assms(3,4)
    unfolding contentWidth_def contentHeight_def p by linarith+
  then have "1 \<le> ?m" "?m \<le> 2 ^ 32"
    by simp_all
  then show ?thesis
    unfolding canvasDimension_def sizeDouble_def cropSize_def by (rule canvas_side_of_double)
qed

section \<open>Positions on a canvas\<close>




section \<open>The processed buffer, pixel by pixel\<close>






section \<open>The painted canvas\<close>






section \<open>The output of a run as an image\<close>














section \<open>The example with an edge and a hole\<close>

lemma edgeAndHole_scan:
  "hasContent (removeBackground edgeAndHole) \<and>
   minX (removeBackground edgeAndHole) = 0 \<and> maxX (removeBackground edgeAndHole) = 9 \<and>
   minY (removeBackground edgeAndHole) = 1 \<and> maxY (removeBackground edgeAndHole) = 2"
  by code_simp

lemma edgeAndHole_palette:
  "paletteOf (removeBackground edgeAndHole)
     = [\<lparr>rgbR = 255, rgbG = 0, rgbB = 0\<rparr>, \<lparr>rgbR = 0, rgbG = 0, rgbB = 0\<rparr>]"
  by code_simp

lemma edgeAndHole_processed:
  "processedData edgeAndHole
     = replicate 10 (rgba 255 255 255 0)
       @ [rgba 0 0 0 0] @ replicate 9 (rgba 255 0 0 255)
       @ [rgba 0 0 0 0, rgba 255 255 255 0] @ replicate 8 (rgba 255 0 0 255)"
  by code_simp

lemma edgeAndHole_offsets:
  "destX (removeBackground edgeAndHole) = 1 \<and> destY (removeBackground edgeAndHole) = 5 \<and>
   cropSize (removeBackground edgeAndHole) = 12"
proof -
  have "toDouble (toDouble (toDouble (10 * toDouble (6 / 5)) - 10) / 2) = 1"
    by code_simp
  moreover have "toDouble (toDouble (toDouble (10 * toDouble (6 / 5)) - 2) / 2) = 5"
    by code_simp
  ultimately show ?thesis
    by (simp add: destX_def destY_def sizeDouble_def cropSize_def contentWidth_def contentHeight_def
          edgeAndHole_scan)
qed

lemma edgeAndHole_canvas:
  "cropAndCenter (imgWidth edgeAndHole) (processedData edgeAndHole) (removeBackground edgeAndHole)
     = \<lparr>finalWidth = 12, finalHeight = 12, sourceWidth = 10,
        sourceData = processedData edgeAndHole,
        srcX = 0, srcY = 1, srcW = 10, srcH = 2, dstX = 1, dstY = 5, dstW = 10, dstH = 2\<rparr>"
proof -
  have w: "imgWidth edgeAndHole = 10"
    by (simp add: edgeAndHole_def)
  show ?thesis
    by (simp add: cropAndCenter_def edgeAndHole_offsets edgeAndHole_scan canvasDimension_def
          contentWidth_def contentHeight_def w)
qed

lemma edgeAndHole_drawn:
  "drawnImage (cropAndCenter (imgWidth edgeAndHole) (processedData edgeAndHole)
                 (removeBackground edgeAndHole)) = Some edgeAndHoleOutput"
  unfolding edgeAndHole_canvas edgeAndHole_processed by code_simp

lemma edgeAndHoleOutput_scan:
  "hasContent (removeBackground edgeAndHoleOutput) \<and>
   minX (removeBackground edgeAndHoleOutput) = 2 \<and> maxX (removeBackground edgeAndHoleOutput) = 10 \<and>
   minY (removeBackground edgeAndHoleOutput) = 5 \<and> maxY (removeBackground edgeAndHoleOutput) = 6"
  by code_simp

lemma edgeAndHoleOutput_palette:
  "paletteOf (removeBackground edgeAndHoleOutput) = [\<lparr>rgbR = 255, rgbG = 0, rgbB = 0\<rparr>]"
  by code_simp



section \<open>The copy into the final canvas\<close>




section \<open>A second run on the output of the first\<close>








text \<open>
  Neither the palette nor the bounding box need be the same, also at whole offsets. On
  \<open>edgeAndHole\<close> the first run counts the two transparent black pixels as foreground,
  their colour being far from the white reference: its palette is red and black, its
  content 10 wide. The canvas holds \<open>edgeAndHoleOutput\<close>, where no pixel is black and
  opaque: the second run has the palette red alone and a content 9 wide.
\<close>

lemma rerun_narrower:
  "paletteOf (removeBackground edgeAndHole)
     = [\<lparr>rgbR = 255, rgbG = 0, rgbB = 0\<rparr>, \<lparr>rgbR = 0, rgbG = 0, rgbB = 0\<rparr>] \<and>
   contentWidth (removeBackground edgeAndHole) = 10 \<and>
   contentHeight (removeBackground edgeAndHole) = 2 \<and>
   drawnImage (cropAndCenter (imgWidth edgeAndHole) (processedData edgeAndHole)
                 (removeBackground edgeAndHole)) = Some edgeAndHoleOutput \<and>
   paletteOf (removeBackground edgeAndHoleOutput) = [\<lparr>rgbR = 255, rgbG = 0, rgbB = 0\<rparr>] \<and>
   contentWidth (removeBackground edgeAndHoleOutput) = 9 \<and>
   contentHeight (removeBackground edgeAndHoleOutput) = 2"
  by (simp add: edgeAndHole_palette edgeAndHole_drawn edgeAndHoleOutput_palette
        contentWidth_def contentHeight_def edgeAndHole_scan edgeAndHoleOutput_scan)

end
